theory Spec2Isabelle
  imports Complex_Main "HOL-Library.Word" "HOL-Library.Sublist"
begin

section \<open>Data model (types of package engine)\<close>

text \<open>
  \<^verbatim>\<open>type Quality string\<close> with its four constants is a closed enumeration.
\<close>

datatype Quality = QualityOK | QualityNoisy | QualityPartial | QualityCorrupt

text \<open>
  \<^verbatim>\<open>SensorData[T]\<close>: the envelope. The timestamp is read as an integer number of
  nanoseconds; the payload type is a type parameter, as in the source.
\<close>

record 'a SensorData =
  ID :: string
  Timestamp :: int
  Data :: 'a
  Quality :: Quality

text \<open>
  \<^verbatim>\<open>Config\<close>: a \<^verbatim>\<open>time.Duration\<close> is an integer count of nanoseconds, and
  \<^verbatim>\<open>BatchSize\<close>, \<^verbatim>\<open>MaxWorkers\<close> are Go \<^verbatim>\<open>int\<close>s: all four may be zero or
  negative.
\<close>

record Config =
  ProductionRate :: int
  BatchSize :: int
  BatchTimeout :: int
  MaxWorkers :: int

section \<open>determineQuality\<close>

text \<open>
  \<^verbatim>\<open>determineQuality\<close> draws \<^verbatim>\<open>r := rand.Float64()\<close> and runs a switch over it.
  The draw comes from the environment, so the model takes it as an argument; the switch
  is the source's, case by case and in the same order.
\<close>

definition determineQuality :: "real \<Rightarrow> Quality" where
  "determineQuality r =
     (if r < 0.01 then QualityCorrupt
      else if r < 0.03 then QualityPartial
      else if r < 0.08 then QualityNoisy
      else QualityOK)"

section \<open>Identifiers: \<^verbatim>\<open>fmt.Sprintf("sensor-%d", counter)\<close>\<close>

text \<open>
  The verb \<^verbatim>\<open>%d\<close> prints a Go \<^verbatim>\<open>int\<close> in decimal, with a leading minus sign for a
  negative value and no padding.
\<close>

definition digit_char :: "nat \<Rightarrow> char" where
  "digit_char d = ''0123456789'' ! d"

fun show_nat :: "nat \<Rightarrow> string" where
  "show_nat n = (if n < 10 then [digit_char n] else show_nat (n div 10) @ [digit_char (n mod 10)])"

definition show_int :: "int \<Rightarrow> string" where
  "show_int i = (if i < 0 then CHR ''-'' # show_nat (nat (- i)) else show_nat (nat i))"

text \<open>
  The generator's \<^verbatim>\<open>counter\<close> is a Go \<^verbatim>\<open>int\<close>: 64 bits, two's complement,
  \<^verbatim>\<open>counter++\<close> wraps.
\<close>

definition sensor_id :: "64 word \<Rightarrow> string" where
  "sensor_id counter = ''sensor-'' @ show_int (sint counter)"

section \<open>Construction: NewEngine and ToEngineConfig\<close>

text \<open>
  A Go \<^verbatim>\<open>error\<close> is read as its message. The seeder and the publisher are
  interfaces whose implementations are outside the pipeline: their types are parameters
  and their results enter the pipeline as events (below).
\<close>

type_synonym error = string

record ('a, 's, 'p) Engine =
  config :: Config
  seeder :: 's
  sensor_function :: "real \<Rightarrow> int \<Rightarrow> 'a"
  publisher :: 'p

definition NewEngine ::
  "Config \<Rightarrow> 's \<Rightarrow> (real \<Rightarrow> int \<Rightarrow> 'a) \<Rightarrow> 'p \<Rightarrow> ('a, 's, 'p) Engine" where
  "NewEngine cfg sd fn pb =
     \<lparr>config = cfg, seeder = sd, sensor_function = fn, publisher = pb\<rparr>"

text \<open>The \<^verbatim>\<open>engine\<close> section of the JSON configuration file.\<close>

record EngineConfig =
  ProductionRateS :: string
  BatchSizeF :: int
  BatchTimeoutS :: string
  MaxWorkersF :: int

text \<open>
  \<^verbatim>\<open>ToEngineConfig\<close> calls \<^verbatim>\<open>time.ParseDuration\<close> of the Go standard library on
  the two duration strings; the parser is a parameter here. Everything else is the
  source's: the two early returns and the final literal.
\<close>

definition ToEngineConfig ::
  "(string \<Rightarrow> error + int) \<Rightarrow> EngineConfig \<Rightarrow> error + Config" where
  "ToEngineConfig parseDuration c =
     (case parseDuration (ProductionRateS c) of
        Inl err \<Rightarrow> Inl (''invalid production_rate: '' @ err)
      | Inr productionRate \<Rightarrow>
          (case parseDuration (BatchTimeoutS c) of
             Inl err \<Rightarrow> Inl (''invalid batch_timeout: '' @ err)
           | Inr batchTimeout \<Rightarrow>
               Inr \<lparr>ProductionRate = productionRate, BatchSize = BatchSizeF c,
                    BatchTimeout = batchTimeout, MaxWorkers = MaxWorkersF c\<rparr>))"

text \<open>
  The configuration the specification calls valid: interval and timeout positive, batch
  size and worker count at least one. This predicate follows the specification's words;
  no function of the source computes it.
\<close>

definition config_positive :: "Config \<Rightarrow> bool" where
  "config_positive cfg \<longleftrightarrow>
     0 < ProductionRate cfg \<and> 1 \<le> BatchSize cfg \<and> 0 < BatchTimeout cfg \<and> 1 \<le> MaxWorkers cfg"

section \<open>The pipeline of Start as a transition system\<close>

text \<open>
  \<^verbatim>\<open>Start\<close> runs one generator goroutine, one batch processor, \<^verbatim>\<open>MaxWorkers\<close>
  publish workers and its own shutdown sequence, all over two buffered channels and one
  context. The model is a step function over the joint state: every \<^verbatim>\<open>select\<close>
  branch, channel operation and call into a collaborator is one event, an event is
  enabled exactly when the Go operation can proceed, and a schedule (event list) is one
  interleaving. Values that come from outside (the seeder's number, the clock, the random
  draw, the outcome of a publisher call) are carried by the event.
\<close>

text \<open>Where each goroutine stands.\<close>

datatype 'a gen_state =
    GenInit                           \<comment> \<open>before \<^verbatim>\<open>time.NewTicker\<close>\<close>
  | GenWaitTick "64 word"             \<comment> \<open>outer select, with the value of \<^verbatim>\<open>counter\<close>\<close>
  | GenSending "64 word" "'a SensorData"  \<comment> \<open>inner select, holding \<^verbatim>\<open>sensorData\<close>\<close>
  | GenDone

datatype 'a bat_state =
    BatInit                           \<comment> \<open>before \<^verbatim>\<open>make\<close> and \<^verbatim>\<open>time.NewTicker\<close>\<close>
  | BatWait "'a SensorData list"      \<comment> \<open>outer select, with \<^verbatim>\<open>batch\<close>\<close>
  | BatFlush "'a SensorData list"     \<comment> \<open>send select after a full batch or a tick: the loop goes on\<close>
  | BatFinal "'a SensorData list"     \<comment> \<open>send select after cancellation or channel close: returns\<close>
  | BatDone

datatype 'a worker_state =
    WIdle                             \<comment> \<open>select\<close>
  | WPublishing "'a SensorData list"  \<comment> \<open>inside \<^verbatim>\<open>PublishBatch\<close>\<close>
  | WDone

datatype orch_state =
    OWaitCtx                          \<comment> \<open>\<^verbatim>\<open><-ctx.Done()\<close>\<close>
  | OWaitGen                          \<comment> \<open>\<^verbatim>\<open>dataWG.Wait()\<close>\<close>
  | OWaitBat                          \<comment> \<open>\<^verbatim>\<open>batchWG.Wait()\<close>\<close>
  | OWaitWork                         \<comment> \<open>\<^verbatim>\<open>publishWG.Wait()\<close>\<close>
  | OReturned "error option"          \<comment> \<open>\<^verbatim>\<open>Start\<close> has returned this value\<close>

text \<open>
  The joint state. The first block is the program's; the second block is history, written
  but never read by a step: what was built, what entered each channel, what the batch
  processor discarded on return, the completed \<^verbatim>\<open>PublishBatch\<close> calls with their
  outcomes, the number of receives from the data channel, and the completed
  \<^verbatim>\<open>Close\<close> calls with their outcomes.
\<close>

record 'a state =
  ctx_done :: bool
  panicked :: bool
  dataChan :: "'a SensorData list"
  dataClosed :: bool
  batchChan :: "'a SensorData list list"
  batchClosed :: bool
  gen :: "'a gen_state"
  bat :: "'a bat_state"
  workers :: "'a worker_state list"
  orch :: orch_state
  generated :: "'a SensorData list"
  enqueued :: "'a SensorData list"
  received :: nat
  emitted :: "'a SensorData list list"
  dropped :: "'a SensorData list"
  sink_log :: "('a SensorData list \<times> error option) list"
  close_log :: "error option list"

text \<open>\<^verbatim>\<open>make(chan SensorData[T], 100)\<close> and \<^verbatim>\<open>make(chan []SensorData[T], 10)\<close>.\<close>

definition dataChan_cap :: nat where
  "dataChan_cap = 100"

definition batchChan_cap :: nat where
  "batchChan_cap = 10"

datatype event =
    Cancel                            \<comment> \<open>the caller cancels the context\<close>
  | GenStart
  | GenTick real int real             \<comment> \<open>seeder value, \<^verbatim>\<open>time.Now()\<close>, \<^verbatim>\<open>rand.Float64()\<close>\<close>
  | GenSend
  | GenCancel
  | BatStart
  | BatCancel
  | BatRecv
  | BatTick
  | BatSend
  | BatSendCancel
  | WorkCancel nat
  | WorkRecv nat
  | WorkPublishRet nat "error option" \<comment> \<open>worker index, outcome of \<^verbatim>\<open>PublishBatch\<close>\<close>
  | OrchCtx
  | OrchCloseData
  | OrchCloseBatch
  | OrchClose "error option"          \<comment> \<open>outcome of \<^verbatim>\<open>Close\<close>\<close>

text \<open>
  The state when the goroutines have been started:
  \<^verbatim>\<open>for i := 0; i < e.config.MaxWorkers; i++\<close> starts no worker for a count below one.
\<close>

definition init :: "('a, 's, 'p) Engine \<Rightarrow> 'a state" where
  "init e =
     \<lparr>ctx_done = False, panicked = False,
      dataChan = [], dataClosed = False, batchChan = [], batchClosed = False,
      gen = GenInit, bat = BatInit,
      workers = replicate (nat (MaxWorkers (config e))) WIdle,
      orch = OWaitCtx,
      generated = [], enqueued = [], received = 0, emitted = [], dropped = [],
      sink_log = [], close_log = []\<rparr>"

subsection \<open>generateData\<close>

text \<open>
  \<^verbatim>\<open>time.NewTicker\<close> panics on a non-positive duration. In the outer select the
  tick branch builds the envelope from the current counter; in the inner select the send
  branch needs room in the channel (and panics on a closed one) and is the only place
  where the counter moves; both selects have the \<^verbatim>\<open>ctx.Done()\<close> branch, which returns.
\<close>

definition gen_start :: "('a, 's, 'p) Engine \<Rightarrow> 'a state \<Rightarrow> 'a state option" where
  "gen_start e s =
     (case gen s of
        GenInit \<Rightarrow>
          if ProductionRate (config e) \<le> 0 then Some (s\<lparr>panicked := True\<rparr>)
          else Some (s\<lparr>gen := GenWaitTick 0\<rparr>)
      | _ \<Rightarrow> None)"

definition gen_tick ::
  "('a, 's, 'p) Engine \<Rightarrow> real \<Rightarrow> int \<Rightarrow> real \<Rightarrow> 'a state \<Rightarrow> 'a state option" where
  "gen_tick e input timestamp r s =
     (case gen s of
        GenWaitTick counter \<Rightarrow>
          (let sensorData = \<lparr>ID = sensor_id counter, Timestamp = timestamp,
                              Data = sensor_function e input timestamp,
                              Quality = determineQuality r\<rparr>
           in Some (s\<lparr>gen := GenSending counter sensorData,
                      generated := generated s @ [sensorData]\<rparr>))
      | _ \<Rightarrow> None)"

definition gen_send :: "'a state \<Rightarrow> 'a state option" where
  "gen_send s =
     (case gen s of
        GenSending counter sensorData \<Rightarrow>
          if dataClosed s then Some (s\<lparr>panicked := True\<rparr>)
          else if length (dataChan s) < dataChan_cap
          then Some (s\<lparr>dataChan := dataChan s @ [sensorData],
                       enqueued := enqueued s @ [sensorData],
                       gen := GenWaitTick (counter + 1)\<rparr>)
          else None
      | _ \<Rightarrow> None)"

definition gen_cancel :: "'a state \<Rightarrow> 'a state option" where
  "gen_cancel s =
     (if ctx_done s then
        (case gen s of
           GenWaitTick counter \<Rightarrow> Some (s\<lparr>gen := GenDone\<rparr>)
         | GenSending counter sensorData \<Rightarrow> Some (s\<lparr>gen := GenDone\<rparr>)
         | _ \<Rightarrow> None)
      else None)"

subsection \<open>processBatches\<close>

text \<open>
  \<^verbatim>\<open>make([]SensorData[T], 0, e.config.BatchSize)\<close> panics on a negative capacity and
  \<^verbatim>\<open>time.NewTicker\<close> on a non-positive duration. (An allocation too large for the
  machine's memory is outside the model.)
\<close>

definition bat_start :: "('a, 's, 'p) Engine \<Rightarrow> 'a state \<Rightarrow> 'a state option" where
  "bat_start e s =
     (case bat s of
        BatInit \<Rightarrow>
          if BatchSize (config e) < 0 \<or> BatchTimeout (config e) \<le> 0
          then Some (s\<lparr>panicked := True\<rparr>)
          else Some (s\<lparr>bat := BatWait []\<rparr>)
      | _ \<Rightarrow> None)"

text \<open>The \<^verbatim>\<open>ctx.Done()\<close> branch of the outer select.\<close>

definition bat_cancel :: "'a state \<Rightarrow> 'a state option" where
  "bat_cancel s =
     (if ctx_done s then
        (case bat s of
           BatWait batch \<Rightarrow>
             if length batch > 0 then Some (s\<lparr>bat := BatFinal batch\<rparr>)
             else Some (s\<lparr>bat := BatDone\<rparr>)
         | _ \<Rightarrow> None)
      else None)"

text \<open>
  The \<^verbatim>\<open>data, ok := <-dataChan\<close> branch: a buffered element is received whether or
  not the channel is closed; \<^verbatim>\<open>ok\<close> is false on an empty closed channel; an empty open
  channel blocks.
\<close>

definition bat_recv :: "('a, 's, 'p) Engine \<Rightarrow> 'a state \<Rightarrow> 'a state option" where
  "bat_recv e s =
     (case bat s of
        BatWait batch \<Rightarrow>
          (case dataChan s of
             [] \<Rightarrow>
               if dataClosed s then
                 (if length batch > 0 then Some (s\<lparr>bat := BatFinal batch\<rparr>)
                  else Some (s\<lparr>bat := BatDone\<rparr>))
               else None
           | data # rest \<Rightarrow>
               (let batch' = batch @ [data]
                in if int (length batch') \<ge> BatchSize (config e)
                   then Some (s\<lparr>dataChan := rest, received := Suc (received s),
                                bat := BatFlush batch'\<rparr>)
                   else Some (s\<lparr>dataChan := rest, received := Suc (received s),
                                bat := BatWait batch'\<rparr>)))
      | _ \<Rightarrow> None)"

text \<open>The \<^verbatim>\<open>batchTicker.C\<close> branch.\<close>

definition bat_tick :: "'a state \<Rightarrow> 'a state option" where
  "bat_tick s =
     (case bat s of
        BatWait batch \<Rightarrow>
          if length batch > 0 then Some (s\<lparr>bat := BatFlush batch\<rparr>) else Some s
      | _ \<Rightarrow> None)"

text \<open>
  The send branch of the four send selects. After the two in the loop body the batch is
  replaced by a fresh empty one; after the two before \<^verbatim>\<open>return\<close> the function returns.
\<close>

definition bat_send :: "'a state \<Rightarrow> 'a state option" where
  "bat_send s =
     (case bat s of
        BatFlush batch \<Rightarrow>
          if batchClosed s then Some (s\<lparr>panicked := True\<rparr>)
          else if length (batchChan s) < batchChan_cap
          then Some (s\<lparr>batchChan := batchChan s @ [batch], emitted := emitted s @ [batch],
                       bat := BatWait []\<rparr>)
          else None
      | BatFinal batch \<Rightarrow>
          if batchClosed s then Some (s\<lparr>panicked := True\<rparr>)
          else if length (batchChan s) < batchChan_cap
          then Some (s\<lparr>batchChan := batchChan s @ [batch], emitted := emitted s @ [batch],
                       bat := BatDone\<rparr>)
          else None
      | _ \<Rightarrow> None)"

text \<open>The \<^verbatim>\<open>ctx.Done()\<close> branch of the four send selects: the batch in hand is gone.\<close>

definition bat_send_cancel :: "'a state \<Rightarrow> 'a state option" where
  "bat_send_cancel s =
     (if ctx_done s then
        (case bat s of
           BatFlush batch \<Rightarrow> Some (s\<lparr>bat := BatDone, dropped := batch\<rparr>)
         | BatFinal batch \<Rightarrow> Some (s\<lparr>bat := BatDone, dropped := batch\<rparr>)
         | _ \<Rightarrow> None)
      else None)"

subsection \<open>publishWorker\<close>

definition work_cancel :: "nat \<Rightarrow> 'a state \<Rightarrow> 'a state option" where
  "work_cancel i s =
     (if ctx_done s \<and> i < length (workers s) then
        (case workers s ! i of
           WIdle \<Rightarrow> Some (s\<lparr>workers := (workers s)[i := WDone]\<rparr>)
         | _ \<Rightarrow> None)
      else None)"

definition work_recv :: "nat \<Rightarrow> 'a state \<Rightarrow> 'a state option" where
  "work_recv i s =
     (if i < length (workers s) then
        (case workers s ! i of
           WIdle \<Rightarrow>
             (case batchChan s of
                [] \<Rightarrow>
                  if batchClosed s then Some (s\<lparr>workers := (workers s)[i := WDone]\<rparr>)
                  else None
              | batch # rest \<Rightarrow>
                  Some (s\<lparr>batchChan := rest, workers := (workers s)[i := WPublishing batch]\<rparr>))
         | _ \<Rightarrow> None)
      else None)"

text \<open>
  \<^verbatim>\<open>PublishBatch\<close> returns. An error is printed and nothing else happens: the loop
  goes back to its select either way.
\<close>

definition work_publish_ret :: "nat \<Rightarrow> error option \<Rightarrow> 'a state \<Rightarrow> 'a state option" where
  "work_publish_ret i err s =
     (if i < length (workers s) then
        (case workers s ! i of
           WPublishing batch \<Rightarrow>
             Some (s\<lparr>workers := (workers s)[i := WIdle],
                     sink_log := sink_log s @ [(batch, err)]\<rparr>)
         | _ \<Rightarrow> None)
      else None)"

subsection \<open>The shutdown sequence of Start\<close>

text \<open>
  Each wait is merged with the statement after it: between the two only the other
  goroutines move, and none of them reads what the wait changes.
  A second \<^verbatim>\<open>close\<close> of a channel would panic.
\<close>

definition orch_ctx :: "'a state \<Rightarrow> 'a state option" where
  "orch_ctx s =
     (if orch s = OWaitCtx \<and> ctx_done s then Some (s\<lparr>orch := OWaitGen\<rparr>) else None)"

definition orch_close_data :: "'a state \<Rightarrow> 'a state option" where
  "orch_close_data s =
     (if orch s = OWaitGen \<and> gen s = GenDone then
        (if dataClosed s then Some (s\<lparr>panicked := True\<rparr>)
         else Some (s\<lparr>dataClosed := True, orch := OWaitBat\<rparr>))
      else None)"

definition orch_close_batch :: "'a state \<Rightarrow> 'a state option" where
  "orch_close_batch s =
     (if orch s = OWaitBat \<and> bat s = BatDone then
        (if batchClosed s then Some (s\<lparr>panicked := True\<rparr>)
         else Some (s\<lparr>batchClosed := True, orch := OWaitWork\<rparr>))
      else None)"

definition orch_close :: "error option \<Rightarrow> 'a state \<Rightarrow> 'a state option" where
  "orch_close err s =
     (if orch s = OWaitWork \<and> list_all (\<lambda>w. w = WDone) (workers s) then
        Some (s\<lparr>close_log := close_log s @ [err],
                orch := OReturned (case err of
                                     None \<Rightarrow> None
                                   | Some msg \<Rightarrow> Some (''error closing publisher: '' @ msg))\<rparr>)
      else None)"

subsection \<open>Steps and runs\<close>

text \<open>A panic ends the process: no goroutine moves after it.\<close>

definition step :: "('a, 's, 'p) Engine \<Rightarrow> event \<Rightarrow> 'a state \<Rightarrow> 'a state option" where
  "step e ev s =
     (if panicked s then None
      else (case ev of
              Cancel \<Rightarrow> Some (s\<lparr>ctx_done := True\<rparr>)
            | GenStart \<Rightarrow> gen_start e s
            | GenTick input timestamp r \<Rightarrow> gen_tick e input timestamp r s
            | GenSend \<Rightarrow> gen_send s
            | GenCancel \<Rightarrow> gen_cancel s
            | BatStart \<Rightarrow> bat_start e s
            | BatCancel \<Rightarrow> bat_cancel s
            | BatRecv \<Rightarrow> bat_recv e s
            | BatTick \<Rightarrow> bat_tick s
            | BatSend \<Rightarrow> bat_send s
            | BatSendCancel \<Rightarrow> bat_send_cancel s
            | WorkCancel i \<Rightarrow> work_cancel i s
            | WorkRecv i \<Rightarrow> work_recv i s
            | WorkPublishRet i err \<Rightarrow> work_publish_ret i err s
            | OrchCtx \<Rightarrow> orch_ctx s
            | OrchCloseData \<Rightarrow> orch_close_data s
            | OrchCloseBatch \<Rightarrow> orch_close_batch s
            | OrchClose err \<Rightarrow> orch_close err s))"

text \<open>A schedule is run from left to right; it is refused at the first event that is not enabled.\<close>

fun run :: "('a, 's, 'p) Engine \<Rightarrow> event list \<Rightarrow> 'a state \<Rightarrow> 'a state option" where
  "run e [] s = Some s"
| "run e (ev # evs) s = (case step e ev s of None \<Rightarrow> None | Some s' \<Rightarrow> run e evs s')"

section \<open>Invariants of the pipeline\<close>

text \<open>What a goroutine holds in its local variable.\<close>

definition bat_hold :: "'a bat_state \<Rightarrow> 'a SensorData list" where
  "bat_hold b =
     (case b of BatWait batch \<Rightarrow> batch | BatFlush batch \<Rightarrow> batch | BatFinal batch \<Rightarrow> batch
      | _ \<Rightarrow> [])"

definition worker_hold :: "'a worker_state \<Rightarrow> 'a SensorData list list" where
  "worker_hold w = (case w of WPublishing batch \<Rightarrow> [batch] | _ \<Rightarrow> [])"

text \<open>
  The batches handed to \<^verbatim>\<open>PublishBatch\<close> in calls that have returned, with or
  without an error, in order of return.
\<close>

definition delivered :: "'a state \<Rightarrow> 'a SensorData list list" where
  "delivered s = map fst (sink_log s)"

text \<open>Channel bounds and the generator's lead over the batch processor.\<close>

definition chan_inv :: "'a state \<Rightarrow> bool" where
  "chan_inv s \<longleftrightarrow>
     length (dataChan s) \<le> dataChan_cap \<and> length (batchChan s) \<le> batchChan_cap \<and>
     length (enqueued s) = received s + length (dataChan s)"

text \<open>
  The counter counts the envelopes sent, the \<open>i\<close>-th envelope built carries counter
  value \<open>i\<close>, and the envelopes sent are the envelopes built, but for the last one when
  it has not been sent (yet).
\<close>

definition gen_inv :: "'a state \<Rightarrow> bool" where
  "gen_inv s \<longleftrightarrow>
     map ID (generated s) = map (\<lambda>i. sensor_id (of_nat i)) [0..<length (generated s)] \<and>
     length (generated s) \<le> length (enqueued s) + 1 \<and>
     prefix (enqueued s) (generated s) \<and>
     (case gen s of
        GenInit \<Rightarrow> generated s = [] \<and> enqueued s = []
      | GenWaitTick counter \<Rightarrow>
          counter = of_nat (length (enqueued s)) \<and> generated s = enqueued s
      | GenSending counter sensorData \<Rightarrow>
          counter = of_nat (length (enqueued s)) \<and> generated s = enqueued s @ [sensorData]
      | GenDone \<Rightarrow> True)"

text \<open>The shutdown sequence: who has closed what, and when \<^verbatim>\<open>Close\<close> has been called.\<close>

definition wrap_close_error :: "error option \<Rightarrow> error option" where
  "wrap_close_error err =
     (case err of None \<Rightarrow> None | Some msg \<Rightarrow> Some (''error closing publisher: '' @ msg))"

definition orch_rank :: "orch_state \<Rightarrow> nat" where
  "orch_rank pc =
     (case pc of OWaitCtx \<Rightarrow> 0 | OWaitGen \<Rightarrow> 1 | OWaitBat \<Rightarrow> 2 | OWaitWork \<Rightarrow> 3
      | OReturned r \<Rightarrow> 4)"

definition closed_inv :: "'a state \<Rightarrow> bool" where
  "closed_inv s \<longleftrightarrow>
     (dataClosed s \<longleftrightarrow> 2 \<le> orch_rank (orch s)) \<and>
     (batchClosed s \<longleftrightarrow> 3 \<le> orch_rank (orch s)) \<and>
     (dataClosed s \<longrightarrow> gen s = GenDone) \<and>
     (batchClosed s \<longrightarrow> bat s = BatDone)"

definition cancel_inv :: "'a state \<Rightarrow> bool" where
  "cancel_inv s \<longleftrightarrow>
     (1 \<le> orch_rank (orch s) \<longrightarrow> ctx_done s) \<and>
     (gen s = GenDone \<longrightarrow> ctx_done s) \<and>
     (bat s = BatDone \<longrightarrow> ctx_done s) \<and>
     (\<forall>batch. bat s = BatFinal batch \<longrightarrow> ctx_done s)"

definition close_inv :: "('a, 's, 'p) Engine \<Rightarrow> 'a state \<Rightarrow> bool" where
  "close_inv e s \<longleftrightarrow>
     length (workers s) = nat (MaxWorkers (config e)) \<and>
     (case orch s of
        OReturned r \<Rightarrow>
          list_all (\<lambda>w. w = WDone) (workers s) \<and>
          (\<exists>err. close_log s = [err] \<and> r = wrap_close_error err)
      | _ \<Rightarrow> close_log s = [])"

text \<open>Batch sizes.\<close>

definition size_ok :: "('a, 's, 'p) Engine \<Rightarrow> 'a SensorData list \<Rightarrow> bool" where
  "size_ok e batch \<longleftrightarrow> 1 \<le> length batch \<and> int (length batch) \<le> BatchSize (config e)"

definition size_inv :: "('a, 's, 'p) Engine \<Rightarrow> 'a state \<Rightarrow> bool" where
  "size_inv e s \<longleftrightarrow>
     list_all (size_ok e) (emitted s) \<and>
     (case bat s of
        BatWait batch \<Rightarrow> int (length batch) < BatchSize (config e)
      | BatFlush batch \<Rightarrow> size_ok e batch
      | BatFinal batch \<Rightarrow> size_ok e batch
      | _ \<Rightarrow> True)"

text \<open>
  Where every envelope that entered the data channel is: in a batch that entered the
  batch channel, in the batch processor's hand, discarded by it, or still in the channel;
  in this order.
\<close>

definition flow_inv :: "'a state \<Rightarrow> bool" where
  "flow_inv s \<longleftrightarrow>
     enqueued s = concat (emitted s) @ bat_hold (bat s) @ dropped s @ dataChan s \<and>
     (dropped s \<noteq> [] \<longrightarrow> ctx_done s \<and> bat s = BatDone)"

text \<open>
  Where every batch that entered the batch channel is. With at most one worker the order
  is kept; with more, returns of \<^verbatim>\<open>PublishBatch\<close> need not follow the order of the
  receives, and only membership is kept.
\<close>

definition single_worker_inv :: "'a state \<Rightarrow> bool" where
  "single_worker_inv s \<longleftrightarrow>
     emitted s = delivered s @ concat (map worker_hold (workers s)) @ batchChan s"

definition member_inv :: "'a state \<Rightarrow> bool" where
  "member_inv s \<longleftrightarrow>
     (\<forall>batch \<in> set (batchChan s). batch \<in> set (emitted s)) \<and>
     (\<forall>(batch, err) \<in> set (sink_log s). batch \<in> set (emitted s)) \<and>
     (\<forall>i < length (workers s). \<forall>batch.
        workers s ! i = WPublishing batch \<longrightarrow> batch \<in> set (emitted s))"

text \<open>
  Runs without a timer event: a batch shorter than the configured size can only be the
  one sent on the way out, hence the last.
\<close>

definition full_batch :: "('a, 's, 'p) Engine \<Rightarrow> 'a SensorData list \<Rightarrow> bool" where
  "full_batch e batch \<longleftrightarrow> int (length batch) = BatchSize (config e)"

definition tickfree_inv :: "('a, 's, 'p) Engine \<Rightarrow> 'a state \<Rightarrow> bool" where
  "tickfree_inv e s \<longleftrightarrow>
     (bat s \<noteq> BatDone \<longrightarrow> list_all (full_batch e) (emitted s)) \<and>
     list_all (full_batch e) (butlast (emitted s)) \<and>
     (\<forall>batch. bat s = BatFlush batch \<longrightarrow> full_batch e batch)"

section \<open>Example engines and schedules\<close>

text \<open>
  Interval 10ms, batch size 3, timeout 1s, one worker; the payload is the timestamp.
\<close>

definition cfg3 :: Config where
  "cfg3 = \<lparr>ProductionRate = 10000000, BatchSize = 3, BatchTimeout = 1000000000, MaxWorkers = 1\<rparr>"

definition engine3 :: "(int, unit, unit) Engine" where
  "engine3 = NewEngine cfg3 () (\<lambda>input timestamp. timestamp) ()"

text \<open>One tick whose envelope enters the data channel at once.\<close>

definition feed :: "int \<Rightarrow> event list" where
  "feed t = [GenTick 0 t 0.5, GenSend]"

text \<open>
  A short run: both goroutines start, two envelopes enter the data channel, the batch
  processor takes one, and a third envelope is built.
\<close>

definition sched_small :: "event list" where
  "sched_small = [GenStart, BatStart] @ feed 1 @ feed 2 @ [BatRecv, GenTick 0 3 0.5]"

definition final_small :: "int state" where
  "final_small = the (run engine3 sched_small (init engine3))"

text \<open>
  The scenario of seven envelopes with batch size 3 and no timer event. Seven envelopes
  enter the data channel, the batch processor sends two full batches and the worker
  publishes both; the seventh envelope is still in the data channel.
\<close>

definition sched7_six :: "event list" where
  "sched7_six =
     [GenStart, BatStart] @ feed 1 @ feed 2 @ feed 3 @ feed 4 @ feed 5 @ feed 6 @ feed 7 @
     [BatRecv, BatRecv, BatRecv, BatSend, WorkRecv 0, WorkPublishRet 0 None,
      BatRecv, BatRecv, BatRecv, BatSend, WorkRecv 0, WorkPublishRet 0 None]"

definition six7 :: "int state" where
  "six7 = the (run engine3 sched7_six (init engine3))"

text \<open>
  First continuation: the batch processor receives the seventh envelope, the context is
  cancelled, and the batch processor and the worker leave through the closed channels.
\<close>

definition sched7_drained :: "event list" where
  "sched7_drained =
     sched7_six @
     [BatRecv, Cancel, GenCancel, OrchCtx, OrchCloseData, BatRecv, BatSend, OrchCloseBatch,
      WorkRecv 0, WorkPublishRet 0 None, WorkRecv 0, OrchClose None]"

definition final7_drained :: "int state" where
  "final7_drained = the (run engine3 sched7_drained (init engine3))"

text \<open>
  Second continuation: the context is cancelled at once, and the batch processor, whose
  batch is empty, takes the \<^verbatim>\<open>ctx.Done()\<close> branch of its outer select although the
  data channel is not empty; the worker takes that of its select.
\<close>

definition sched7_undrained :: "event list" where
  "sched7_undrained =
     sched7_six @
     [Cancel, GenCancel, BatCancel, OrchCtx, OrchCloseData, OrchCloseBatch,
      WorkCancel 0, OrchClose None]"

definition final7_undrained :: "int state" where
  "final7_undrained = the (run engine3 sched7_undrained (init engine3))"

text \<open>
  One envelope enters the data channel, then the context is cancelled and the batch
  processor, whose batch is empty, takes the \<^verbatim>\<open>ctx.Done()\<close> branch.
\<close>

definition sched1_fed :: "event list" where
  "sched1_fed = [GenStart, BatStart] @ feed 1"

definition fed1 :: "int state" where
  "fed1 = the (run engine3 sched1_fed (init engine3))"

definition sched1_left :: "event list" where
  "sched1_left =
     sched1_fed @
     [Cancel, GenCancel, BatCancel, OrchCtx, OrchCloseData, OrchCloseBatch,
      WorkCancel 0, OrchClose None]"

definition final1_left :: "int state" where
  "final1_left = the (run engine3 sched1_left (init engine3))"

text \<open>A run in which one \<^verbatim>\<open>PublishBatch\<close> fails and \<^verbatim>\<open>Close\<close> fails.\<close>

definition sched_failing :: "event list" where
  "sched_failing =
     [GenStart, BatStart] @ feed 1 @ feed 2 @ feed 3 @ feed 4 @
     [BatRecv, BatRecv, BatRecv, BatSend, WorkRecv 0, WorkPublishRet 0 (Some ''publish failed''),
      BatRecv, BatTick, BatSend, WorkRecv 0, WorkPublishRet 0 None,
      Cancel, GenCancel, OrchCtx, OrchCloseData, BatRecv, OrchCloseBatch,
      WorkRecv 0, OrchClose (Some ''close failed'')]"

definition final_failing :: "int state" where
  "final_failing = the (run engine3 sched_failing (init engine3))"

text \<open>A run that stops while the worker is inside \<^verbatim>\<open>PublishBatch\<close>.\<close>

definition sched_publishing :: "event list" where
  "sched_publishing =
     [GenStart, BatStart] @ feed 1 @ feed 2 @ feed 3 @
     [BatRecv, BatRecv, BatRecv, BatSend, WorkRecv 0]"

definition mid_publishing :: "int state" where
  "mid_publishing = the (run engine3 sched_publishing (init engine3))"

text \<open>
  Two states of the batch processor at its outer select: holding two envelopes with a
  third in the data channel, and holding none with one in the data channel.
\<close>

definition sched_two_held :: "event list" where
  "sched_two_held = [GenStart, BatStart] @ feed 1 @ feed 2 @ feed 3 @ [BatRecv, BatRecv]"

definition mid_two_held :: "int state" where
  "mid_two_held = the (run engine3 sched_two_held (init engine3))"



text \<open>
  A configuration with all four values zero, as a \<^verbatim>\<open>Config\<close> literal and as the
  \<^verbatim>\<open>engine\<close> section of a configuration file. The parser below stands for
  \<^verbatim>\<open>time.ParseDuration\<close> on the one string the file uses, \<^verbatim>\<open>"0s"\<close>, which it reads as
  the zero duration; it refuses every other string, which is all the examples need.
\<close>

definition cfg0 :: Config where
  "cfg0 = \<lparr>ProductionRate = 0, BatchSize = 0, BatchTimeout = 0, MaxWorkers = 0\<rparr>"

definition engine0 :: "(int, unit, unit) Engine" where
  "engine0 = NewEngine cfg0 () (\<lambda>input timestamp. timestamp) ()"

definition parse_0s :: "string \<Rightarrow> error + int" where
  "parse_0s s = (if s = ''0s'' then Inr 0 else Inl (''time: invalid duration '' @ s))"

definition file0 :: EngineConfig where
  "file0 = \<lparr>ProductionRateS = ''0s'', BatchSizeF = 0, BatchTimeoutS = ''0s'', MaxWorkersF = 0\<rparr>"

definition file_bad :: EngineConfig where
  "file_bad = \<lparr>ProductionRateS = ''0s'', BatchSizeF = 5, BatchTimeoutS = ''soon'', MaxWorkersF = 2\<rparr>"







text \<open>The random draws of a schedule, one for each tick of the generator, in order.\<close>

fun draws :: "event list \<Rightarrow> real list" where
  "draws [] = []"
| "draws (GenTick input timestamp r # evs) = r # draws evs"
| "draws (ev # evs) = draws evs"

text \<open>Four envelopes, with draws on the three thresholds and below the first.\<close>

definition sched_quality :: "event list" where
  "sched_quality =
     [GenStart, GenTick 0 1 0.005, GenSend, GenTick 0 2 0.01, GenSend,
      GenTick 0 3 0.03, GenSend, GenTick 0 4 0.08, GenSend]"

definition final_quality :: "int state" where
  "final_quality = the (run engine3 sched_quality (init engine3))"

section \<open>Every step keeps the invariants\<close>

lemmas step_defs = step_def gen_start_def gen_tick_def gen_send_def gen_cancel_def
    bat_start_def bat_cancel_def bat_recv_def bat_tick_def bat_send_def bat_send_cancel_def
    work_cancel_def work_recv_def work_publish_ret_def
    orch_ctx_def orch_close_data_def orch_close_batch_def orch_close_def

lemma step_elim [consumes 1, case_names Cancel GenStart GenTick GenSend GenCancel BatStart
    BatCancel BatRecv BatTick BatSend BatSendCancel WorkCancel WorkRecv WorkPublishRet
    OrchCtx OrchCloseData OrchCloseBatch OrchClose]:
  assumes "step e ev s = Some s'"
  obtains "ev = Cancel" "s' = s\<lparr>ctx_done := True\<rparr>"
  | "ev = GenStart" "gen_start e s = Some s'"
  | input timestamp r where "ev = GenTick input timestamp r" "gen_tick e input timestamp r s = Some s'"
  | "ev = GenSend" "gen_send s = Some s'"
  | "ev = GenCancel" "gen_cancel s = Some s'"
  | "ev = BatStart" "bat_start e s = Some s'"
  | "ev = BatCancel" "bat_cancel s = Some s'"
  | "ev = BatRecv" "bat_recv e s = Some s'"
  | "ev = BatTick" "bat_tick s = Some s'"
  | "ev = BatSend" "bat_send s = Some s'"
  | "ev = BatSendCancel" "bat_send_cancel s = Some s'"
  | i where "ev = WorkCancel i" "work_cancel i s = Some s'"
  | i where "ev = WorkRecv i" "work_recv i s = Some s'"
  | i err where "ev = WorkPublishRet i err" "work_publish_ret i err s = Some s'"
  | "ev = OrchCtx" "orch_ctx s = Some s'"
  | "ev = OrchCloseData" "orch_close_data s = Some s'"
  | "ev = OrchCloseBatch" "orch_close_batch s = Some s'"
  | err where "ev = OrchClose err" "orch_close err s = Some s'"
  using assms by (cases ev) (simp_all add: step_def split: if_splits)

lemma run_preserves:
  assumes "\<And>ev s s'. P s \<Longrightarrow> step e ev s = Some s' \<Longrightarrow> P s'"
    and "run e evs s = Some s'" and "P s"
  shows "P s'"
  using assms(2,3)
proof (induction evs arbitrary: s)
  case Nil
  then show ?case by simp
next
  case (Cons ev evs)
  from Cons.prems(1) obtain t where t: "step e ev s = Some t" and r: "run e evs t = Some s'"
    by (auto split: option.splits)
  from assms(1)[OF Cons.prems(2) t] have "P t" .
  with Cons.IH[OF r] show ?case .
qed

lemma chan_inv_upd [simp]:
  "chan_inv (s\<lparr>ctx_done := v0\<rparr>) = chan_inv s"
  "chan_inv (s\<lparr>panicked := v1\<rparr>) = chan_inv s"
  "chan_inv (s\<lparr>dataClosed := v2\<rparr>) = chan_inv s"
  "chan_inv (s\<lparr>batchClosed := v3\<rparr>) = chan_inv s"
  "chan_inv (s\<lparr>gen := v4\<rparr>) = chan_inv s"
  "chan_inv (s\<lparr>bat := v5\<rparr>) = chan_inv s"
  "chan_inv (s\<lparr>workers := v6\<rparr>) = chan_inv s"
  "chan_inv (s\<lparr>orch := v7\<rparr>) = chan_inv s"
  "chan_inv (s\<lparr>generated := v8\<rparr>) = chan_inv s"
  "chan_inv (s\<lparr>emitted := v9\<rparr>) = chan_inv s"
  "chan_inv (s\<lparr>dropped := v10\<rparr>) = chan_inv s"
  "chan_inv (s\<lparr>sink_log := v11\<rparr>) = chan_inv s"
  "chan_inv (s\<lparr>close_log := v12\<rparr>) = chan_inv s"
  by (simp_all add: chan_inv_def split: gen_state.splits bat_state.splits orch_state.splits)

lemma chan_inv_step:
  assumes inv: "chan_inv s"
    and step: "step e ev s = Some s'"
  shows "chan_inv s'"
  using step
proof (cases rule: step_elim)
  case Cancel
  with inv  show ?thesis
    by (auto)
next
  case GenStart
  with inv  show ?thesis
    by (auto simp: gen_start_def Let_def   split: gen_state.splits if_splits )
next
  case (GenTick input timestamp r)
  with inv  show ?thesis
    by (auto simp: gen_tick_def Let_def   split: gen_state.splits )
next
  case GenSend
  with inv  show ?thesis
    by (auto simp: gen_send_def Let_def chan_inv_def  split: gen_state.splits if_splits )
next
  case GenCancel
  with inv  show ?thesis
    by (auto simp: gen_cancel_def Let_def   split: gen_state.splits if_splits )
next
  case BatStart
  with inv  show ?thesis
    by (auto simp: bat_start_def Let_def   split: bat_state.splits if_splits )
next
  case BatCancel
  with inv  show ?thesis
    by (auto simp: bat_cancel_def Let_def   split: bat_state.splits if_splits )
next
  case BatRecv
  with inv  show ?thesis
    by (auto simp: bat_recv_def Let_def chan_inv_def  split: bat_state.splits if_splits list.splits )
next
  case BatTick
  with inv  show ?thesis
    by (auto simp: bat_tick_def Let_def   split: bat_state.splits if_splits )
next
  case BatSend
  with inv  show ?thesis
    by (auto simp: bat_send_def Let_def chan_inv_def  split: bat_state.splits if_splits )
next
  case BatSendCancel
  with inv  show ?thesis
    by (auto simp: bat_send_cancel_def Let_def   split: bat_state.splits if_splits )
next
  case (WorkCancel i)
  with inv  show ?thesis
    by (auto simp: work_cancel_def Let_def   split: worker_state.splits if_splits )
next
  case (WorkRecv i)
  with inv  show ?thesis
    by (auto simp: work_recv_def Let_def chan_inv_def  split: worker_state.splits if_splits list.splits )
next
  case (WorkPublishRet i err)
  with inv  show ?thesis
    by (auto simp: work_publish_ret_def Let_def   split: worker_state.splits if_splits )
next
  case OrchCtx
  with inv  show ?thesis
    by (auto simp: orch_ctx_def Let_def   split: if_splits )
next
  case OrchCloseData
  with inv  show ?thesis
    by (auto simp: orch_close_data_def Let_def   split: if_splits )
next
  case OrchCloseBatch
  with inv  show ?thesis
    by (auto simp: orch_close_batch_def Let_def   split: if_splits )
next
  case (OrchClose err)
  with inv  show ?thesis
    by (auto simp: orch_close_def Let_def   split: if_splits )
qed

lemma gen_inv_upd [simp]:
  "gen_inv (s\<lparr>ctx_done := v0\<rparr>) = gen_inv s"
  "gen_inv (s\<lparr>panicked := v1\<rparr>) = gen_inv s"
  "gen_inv (s\<lparr>dataChan := v2\<rparr>) = gen_inv s"
  "gen_inv (s\<lparr>dataClosed := v3\<rparr>) = gen_inv s"
  "gen_inv (s\<lparr>batchChan := v4\<rparr>) = gen_inv s"
  "gen_inv (s\<lparr>batchClosed := v5\<rparr>) = gen_inv s"
  "gen_inv (s\<lparr>bat := v6\<rparr>) = gen_inv s"
  "gen_inv (s\<lparr>workers := v7\<rparr>) = gen_inv s"
  "gen_inv (s\<lparr>orch := v8\<rparr>) = gen_inv s"
  "gen_inv (s\<lparr>received := v9\<rparr>) = gen_inv s"
  "gen_inv (s\<lparr>emitted := v10\<rparr>) = gen_inv s"
  "gen_inv (s\<lparr>dropped := v11\<rparr>) = gen_inv s"
  "gen_inv (s\<lparr>sink_log := v12\<rparr>) = gen_inv s"
  "gen_inv (s\<lparr>close_log := v13\<rparr>) = gen_inv s"
  by (simp_all add: gen_inv_def split: gen_state.splits bat_state.splits orch_state.splits)

lemma gen_inv_step:
  assumes inv: "gen_inv s"
    and step: "step e ev s = Some s'"
  shows "gen_inv s'"
  using step
proof (cases rule: step_elim)
  case Cancel
  with inv  show ?thesis
    by (auto)
next
  case GenStart
  with inv  show ?thesis
    by (auto simp: gen_start_def Let_def gen_inv_def  split: gen_state.splits if_splits gen_state.splits)
next
  case (GenTick input timestamp r)
  with inv  show ?thesis
    by (auto simp: gen_tick_def Let_def gen_inv_def  split: gen_state.splits gen_state.splits)
next
  case GenSend
  with inv  show ?thesis
    by (auto simp: gen_send_def Let_def gen_inv_def  split: gen_state.splits if_splits gen_state.splits)
next
  case GenCancel
  with inv  show ?thesis
    by (auto simp: gen_cancel_def Let_def gen_inv_def  split: gen_state.splits if_splits gen_state.splits)
next
  case BatStart
  with inv  show ?thesis
    by (auto simp: bat_start_def Let_def   split: bat_state.splits if_splits )
next
  case BatCancel
  with inv  show ?thesis
    by (auto simp: bat_cancel_def Let_def   split: bat_state.splits if_splits )
next
  case BatRecv
  with inv  show ?thesis
    by (auto simp: bat_recv_def Let_def   split: bat_state.splits if_splits list.splits )
next
  case BatTick
  with inv  show ?thesis
    by (auto simp: bat_tick_def Let_def   split: bat_state.splits if_splits )
next
  case BatSend
  with inv  show ?thesis
    by (auto simp: bat_send_def Let_def   split: bat_state.splits if_splits )
next
  case BatSendCancel
  with inv  show ?thesis
    by (auto simp: bat_send_cancel_def Let_def   split: bat_state.splits if_splits )
next
  case (WorkCancel i)
  with inv  show ?thesis
    by (auto simp: work_cancel_def Let_def   split: worker_state.splits if_splits )
next
  case (WorkRecv i)
  with inv  show ?thesis
    by (auto simp: work_recv_def Let_def   split: worker_state.splits if_splits list.splits )
next
  case (WorkPublishRet i err)
  with inv  show ?thesis
    by (auto simp: work_publish_ret_def Let_def   split: worker_state.splits if_splits )
next
  case OrchCtx
  with inv  show ?thesis
    by (auto simp: orch_ctx_def Let_def   split: if_splits )
next
  case OrchCloseData
  with inv  show ?thesis
    by (auto simp: orch_close_data_def Let_def   split: if_splits )
next
  case OrchCloseBatch
  with inv  show ?thesis
    by (auto simp: orch_close_batch_def Let_def   split: if_splits )
next
  case (OrchClose err)
  with inv  show ?thesis
    by (auto simp: orch_close_def Let_def   split: if_splits )
qed

lemma closed_inv_upd [simp]:
  "closed_inv (s\<lparr>ctx_done := v0\<rparr>) = closed_inv s"
  "closed_inv (s\<lparr>panicked := v1\<rparr>) = closed_inv s"
  "closed_inv (s\<lparr>dataChan := v2\<rparr>) = closed_inv s"
  "closed_inv (s\<lparr>batchChan := v3\<rparr>) = closed_inv s"
  "closed_inv (s\<lparr>workers := v4\<rparr>) = closed_inv s"
  "closed_inv (s\<lparr>generated := v5\<rparr>) = closed_inv s"
  "closed_inv (s\<lparr>enqueued := v6\<rparr>) = closed_inv s"
  "closed_inv (s\<lparr>received := v7\<rparr>) = closed_inv s"
  "closed_inv (s\<lparr>emitted := v8\<rparr>) = closed_inv s"
  "closed_inv (s\<lparr>dropped := v9\<rparr>) = closed_inv s"
  "closed_inv (s\<lparr>sink_log := v10\<rparr>) = closed_inv s"
  "closed_inv (s\<lparr>close_log := v11\<rparr>) = closed_inv s"
  by (simp_all add: closed_inv_def split: gen_state.splits bat_state.splits orch_state.splits)

lemma closed_inv_step:
  assumes inv: "closed_inv s"
    and step: "step e ev s = Some s'"
  shows "closed_inv s'"
  using step
proof (cases rule: step_elim)
  case Cancel
  with inv  show ?thesis
    by (auto)
next
  case GenStart
  with inv  show ?thesis
    by (auto simp: gen_start_def Let_def closed_inv_def orch_rank_def  split: gen_state.splits if_splits )
next
  case (GenTick input timestamp r)
  with inv  show ?thesis
    by (auto simp: gen_tick_def Let_def closed_inv_def orch_rank_def  split: gen_state.splits )
next
  case GenSend
  with inv  show ?thesis
    by (auto simp: gen_send_def Let_def closed_inv_def orch_rank_def  split: gen_state.splits if_splits )
next
  case GenCancel
  with inv  show ?thesis
    by (auto simp: gen_cancel_def Let_def closed_inv_def orch_rank_def  split: gen_state.splits if_splits )
next
  case BatStart
  with inv  show ?thesis
    by (auto simp: bat_start_def Let_def closed_inv_def orch_rank_def  split: bat_state.splits if_splits )
next
  case BatCancel
  with inv  show ?thesis
    by (auto simp: bat_cancel_def Let_def closed_inv_def orch_rank_def  split: bat_state.splits if_splits )
next
  case BatRecv
  with inv  show ?thesis
    by (auto simp: bat_recv_def Let_def closed_inv_def orch_rank_def  split: bat_state.splits if_splits list.splits )
next
  case BatTick
  with inv  show ?thesis
    by (auto simp: bat_tick_def Let_def closed_inv_def orch_rank_def  split: bat_state.splits if_splits )
next
  case BatSend
  with inv  show ?thesis
    by (auto simp: bat_send_def Let_def closed_inv_def orch_rank_def  split: bat_state.splits if_splits )
next
  case BatSendCancel
  with inv  show ?thesis
    by (auto simp: bat_send_cancel_def Let_def closed_inv_def orch_rank_def  split: bat_state.splits if_splits )
next
  case (WorkCancel i)
  with inv  show ?thesis
    by (auto simp: work_cancel_def Let_def   split: worker_state.splits if_splits )
next
  case (WorkRecv i)
  with inv  show ?thesis
    by (auto simp: work_recv_def Let_def   split: worker_state.splits if_splits list.splits )
next
  case (WorkPublishRet i err)
  with inv  show ?thesis
    by (auto simp: work_publish_ret_def Let_def   split: worker_state.splits if_splits )
next
  case OrchCtx
  with inv  show ?thesis
    by (auto simp: orch_ctx_def Let_def closed_inv_def orch_rank_def  split: if_splits )
next
  case OrchCloseData
  with inv  show ?thesis
    by (auto simp: orch_close_data_def Let_def closed_inv_def orch_rank_def  split: if_splits )
next
  case OrchCloseBatch
  with inv  show ?thesis
    by (auto simp: orch_close_batch_def Let_def closed_inv_def orch_rank_def  split: if_splits )
next
  case (OrchClose err)
  with inv  show ?thesis
    by (auto simp: orch_close_def Let_def closed_inv_def orch_rank_def  split: if_splits )
qed

lemma close_inv_upd [simp]:
  "close_inv e (s\<lparr>ctx_done := v0\<rparr>) = close_inv e s"
  "close_inv e (s\<lparr>panicked := v1\<rparr>) = close_inv e s"
  "close_inv e (s\<lparr>dataChan := v2\<rparr>) = close_inv e s"
  "close_inv e (s\<lparr>dataClosed := v3\<rparr>) = close_inv e s"
  "close_inv e (s\<lparr>batchChan := v4\<rparr>) = close_inv e s"
  "close_inv e (s\<lparr>batchClosed := v5\<rparr>) = close_inv e s"
  "close_inv e (s\<lparr>gen := v6\<rparr>) = close_inv e s"
  "close_inv e (s\<lparr>bat := v7\<rparr>) = close_inv e s"
  "close_inv e (s\<lparr>generated := v8\<rparr>) = close_inv e s"
  "close_inv e (s\<lparr>enqueued := v9\<rparr>) = close_inv e s"
  "close_inv e (s\<lparr>received := v10\<rparr>) = close_inv e s"
  "close_inv e (s\<lparr>emitted := v11\<rparr>) = close_inv e s"
  "close_inv e (s\<lparr>dropped := v12\<rparr>) = close_inv e s"
  "close_inv e (s\<lparr>sink_log := v13\<rparr>) = close_inv e s"
  by (simp_all add: close_inv_def split: gen_state.splits bat_state.splits orch_state.splits)

lemma close_inv_step:
  assumes inv: "close_inv e s"
    and step: "step e ev s = Some s'"
  shows "close_inv e s'"
  using step
proof (cases rule: step_elim)
  case Cancel
  with inv  show ?thesis
    by (auto)
next
  case GenStart
  with inv  show ?thesis
    by (auto simp: gen_start_def Let_def   split: gen_state.splits if_splits )
next
  case (GenTick input timestamp r)
  with inv  show ?thesis
    by (auto simp: gen_tick_def Let_def   split: gen_state.splits )
next
  case GenSend
  with inv  show ?thesis
    by (auto simp: gen_send_def Let_def   split: gen_state.splits if_splits )
next
  case GenCancel
  with inv  show ?thesis
    by (auto simp: gen_cancel_def Let_def   split: gen_state.splits if_splits )
next
  case BatStart
  with inv  show ?thesis
    by (auto simp: bat_start_def Let_def   split: bat_state.splits if_splits )
next
  case BatCancel
  with inv  show ?thesis
    by (auto simp: bat_cancel_def Let_def   split: bat_state.splits if_splits )
next
  case BatRecv
  with inv  show ?thesis
    by (auto simp: bat_recv_def Let_def   split: bat_state.splits if_splits list.splits )
next
  case BatTick
  with inv  show ?thesis
    by (auto simp: bat_tick_def Let_def   split: bat_state.splits if_splits )
next
  case BatSend
  with inv  show ?thesis
    by (auto simp: bat_send_def Let_def   split: bat_state.splits if_splits )
next
  case BatSendCancel
  with inv  show ?thesis
    by (auto simp: bat_send_cancel_def Let_def   split: bat_state.splits if_splits )
next
  case (WorkCancel i)
  with inv  show ?thesis
    by (auto simp: work_cancel_def Let_def close_inv_def wrap_close_error_def list_all_length nth_list_update  split: worker_state.splits if_splits orch_state.splits)
next
  case (WorkRecv i)
  with inv  show ?thesis
    by (auto simp: work_recv_def Let_def close_inv_def wrap_close_error_def list_all_length nth_list_update  split: worker_state.splits if_splits list.splits orch_state.splits)
next
  case (WorkPublishRet i err)
  with inv  show ?thesis
    by (auto simp: work_publish_ret_def Let_def close_inv_def wrap_close_error_def list_all_length nth_list_update  split: worker_state.splits if_splits orch_state.splits)
next
  case OrchCtx
  with inv  show ?thesis
    by (auto simp: orch_ctx_def Let_def close_inv_def wrap_close_error_def list_all_length nth_list_update  split: if_splits orch_state.splits)
next
  case OrchCloseData
  with inv  show ?thesis
    by (auto simp: orch_close_data_def Let_def close_inv_def wrap_close_error_def list_all_length nth_list_update  split: if_splits orch_state.splits)
next
  case OrchCloseBatch
  with inv  show ?thesis
    by (auto simp: orch_close_batch_def Let_def close_inv_def wrap_close_error_def list_all_length nth_list_update  split: if_splits orch_state.splits)
next
  case (OrchClose err)
  with inv  show ?thesis
    by (auto simp: orch_close_def Let_def close_inv_def wrap_close_error_def list_all_length nth_list_update  split: if_splits orch_state.splits)
qed

lemma size_inv_upd [simp]:
  "size_inv e (s\<lparr>ctx_done := v0\<rparr>) = size_inv e s"
  "size_inv e (s\<lparr>panicked := v1\<rparr>) = size_inv e s"
  "size_inv e (s\<lparr>dataChan := v2\<rparr>) = size_inv e s"
  "size_inv e (s\<lparr>dataClosed := v3\<rparr>) = size_inv e s"
  "size_inv e (s\<lparr>batchChan := v4\<rparr>) = size_inv e s"
  "size_inv e (s\<lparr>batchClosed := v5\<rparr>) = size_inv e s"
  "size_inv e (s\<lparr>gen := v6\<rparr>) = size_inv e s"
  "size_inv e (s\<lparr>workers := v7\<rparr>) = size_inv e s"
  "size_inv e (s\<lparr>orch := v8\<rparr>) = size_inv e s"
  "size_inv e (s\<lparr>generated := v9\<rparr>) = size_inv e s"
  "size_inv e (s\<lparr>enqueued := v10\<rparr>) = size_inv e s"
  "size_inv e (s\<lparr>received := v11\<rparr>) = size_inv e s"
  "size_inv e (s\<lparr>dropped := v12\<rparr>) = size_inv e s"
  "size_inv e (s\<lparr>sink_log := v13\<rparr>) = size_inv e s"
  "size_inv e (s\<lparr>close_log := v14\<rparr>) = size_inv e s"
  by (simp_all add: size_inv_def size_ok_def split: gen_state.splits bat_state.splits orch_state.splits)

lemma size_inv_step:
  assumes pos: "1 \<le> BatchSize (config e)"
    and inv: "size_inv e s"
    and step: "step e ev s = Some s'"
  shows "size_inv e s'"
  using step
proof (cases rule: step_elim)
  case Cancel
  with inv pos show ?thesis
    by (auto)
next
  case GenStart
  with inv pos show ?thesis
    by (auto simp: gen_start_def Let_def   split: gen_state.splits if_splits )
next
  case (GenTick input timestamp r)
  with inv pos show ?thesis
    by (auto simp: gen_tick_def Let_def   split: gen_state.splits )
next
  case GenSend
  with inv pos show ?thesis
    by (auto simp: gen_send_def Let_def   split: gen_state.splits if_splits )
next
  case GenCancel
  with inv pos show ?thesis
    by (auto simp: gen_cancel_def Let_def   split: gen_state.splits if_splits )
next
  case BatStart
  with inv pos show ?thesis
    by (auto simp: bat_start_def Let_def size_inv_def size_ok_def Suc_le_eq  split: bat_state.splits if_splits )
next
  case BatCancel
  with inv pos show ?thesis
    by (auto simp: bat_cancel_def Let_def size_inv_def size_ok_def Suc_le_eq  split: bat_state.splits if_splits )
next
  case BatRecv
  with inv pos show ?thesis
    by (auto simp: bat_recv_def Let_def size_inv_def size_ok_def Suc_le_eq  split: bat_state.splits if_splits list.splits )
next
  case BatTick
  with inv pos show ?thesis
    by (auto simp: bat_tick_def Let_def size_inv_def size_ok_def Suc_le_eq  split: bat_state.splits if_splits )
next
  case BatSend
  with inv pos show ?thesis
    by (auto simp: bat_send_def Let_def size_inv_def size_ok_def Suc_le_eq  split: bat_state.splits if_splits )
next
  case BatSendCancel
  with inv pos show ?thesis
    by (auto simp: bat_send_cancel_def Let_def size_inv_def size_ok_def Suc_le_eq  split: bat_state.splits if_splits )
next
  case (WorkCancel i)
  with inv pos show ?thesis
    by (auto simp: work_cancel_def Let_def   split: worker_state.splits if_splits )
next
  case (WorkRecv i)
  with inv pos show ?thesis
    by (auto simp: work_recv_def Let_def   split: worker_state.splits if_splits list.splits )
next
  case (WorkPublishRet i err)
  with inv pos show ?thesis
    by (auto simp: work_publish_ret_def Let_def   split: worker_state.splits if_splits )
next
  case OrchCtx
  with inv pos show ?thesis
    by (auto simp: orch_ctx_def Let_def   split: if_splits )
next
  case OrchCloseData
  with inv pos show ?thesis
    by (auto simp: orch_close_data_def Let_def   split: if_splits )
next
  case OrchCloseBatch
  with inv pos show ?thesis
    by (auto simp: orch_close_batch_def Let_def   split: if_splits )
next
  case (OrchClose err)
  with inv pos show ?thesis
    by (auto simp: orch_close_def Let_def   split: if_splits )
qed

lemma flow_inv_upd [simp]:
  "flow_inv (s\<lparr>panicked := v0\<rparr>) = flow_inv s"
  "flow_inv (s\<lparr>dataClosed := v1\<rparr>) = flow_inv s"
  "flow_inv (s\<lparr>batchChan := v2\<rparr>) = flow_inv s"
  "flow_inv (s\<lparr>batchClosed := v3\<rparr>) = flow_inv s"
  "flow_inv (s\<lparr>gen := v4\<rparr>) = flow_inv s"
  "flow_inv (s\<lparr>workers := v5\<rparr>) = flow_inv s"
  "flow_inv (s\<lparr>orch := v6\<rparr>) = flow_inv s"
  "flow_inv (s\<lparr>generated := v7\<rparr>) = flow_inv s"
  "flow_inv (s\<lparr>received := v8\<rparr>) = flow_inv s"
  "flow_inv (s\<lparr>sink_log := v9\<rparr>) = flow_inv s"
  "flow_inv (s\<lparr>close_log := v10\<rparr>) = flow_inv s"
  by (simp_all add: flow_inv_def split: gen_state.splits bat_state.splits orch_state.splits)

lemma flow_inv_step:
  assumes inv: "flow_inv s"
    and step: "step e ev s = Some s'"
  shows "flow_inv s'"
  using step
proof (cases rule: step_elim)
  case Cancel
  with inv  show ?thesis
    by (auto simp: flow_inv_def bat_hold_def)
next
  case GenStart
  with inv  show ?thesis
    by (auto simp: gen_start_def Let_def   split: gen_state.splits if_splits )
next
  case (GenTick input timestamp r)
  with inv  show ?thesis
    by (auto simp: gen_tick_def Let_def   split: gen_state.splits )
next
  case GenSend
  with inv  show ?thesis
    by (auto simp: gen_send_def Let_def flow_inv_def bat_hold_def  split: gen_state.splits if_splits )
next
  case GenCancel
  with inv  show ?thesis
    by (auto simp: gen_cancel_def Let_def   split: gen_state.splits if_splits )
next
  case BatStart
  with inv  show ?thesis
    by (auto simp: bat_start_def Let_def flow_inv_def bat_hold_def  split: bat_state.splits if_splits )
next
  case BatCancel
  with inv  show ?thesis
    by (auto simp: bat_cancel_def Let_def flow_inv_def bat_hold_def  split: bat_state.splits if_splits )
next
  case BatRecv
  with inv  show ?thesis
    by (auto simp: bat_recv_def Let_def flow_inv_def bat_hold_def  split: bat_state.splits if_splits list.splits )
next
  case BatTick
  with inv  show ?thesis
    by (auto simp: bat_tick_def Let_def flow_inv_def bat_hold_def  split: bat_state.splits if_splits )
next
  case BatSend
  with inv  show ?thesis
    by (auto simp: bat_send_def Let_def flow_inv_def bat_hold_def  split: bat_state.splits if_splits )
next
  case BatSendCancel
  with inv  show ?thesis
    by (auto simp: bat_send_cancel_def Let_def flow_inv_def bat_hold_def  split: bat_state.splits if_splits )
next
  case (WorkCancel i)
  with inv  show ?thesis
    by (auto simp: work_cancel_def Let_def   split: worker_state.splits if_splits )
next
  case (WorkRecv i)
  with inv  show ?thesis
    by (auto simp: work_recv_def Let_def   split: worker_state.splits if_splits list.splits )
next
  case (WorkPublishRet i err)
  with inv  show ?thesis
    by (auto simp: work_publish_ret_def Let_def   split: worker_state.splits if_splits )
next
  case OrchCtx
  with inv  show ?thesis
    by (auto simp: orch_ctx_def Let_def   split: if_splits )
next
  case OrchCloseData
  with inv  show ?thesis
    by (auto simp: orch_close_data_def Let_def   split: if_splits )
next
  case OrchCloseBatch
  with inv  show ?thesis
    by (auto simp: orch_close_batch_def Let_def   split: if_splits )
next
  case (OrchClose err)
  with inv  show ?thesis
    by (auto simp: orch_close_def Let_def   split: if_splits )
qed

lemma member_inv_upd [simp]:
  "member_inv (s\<lparr>ctx_done := v0\<rparr>) = member_inv s"
  "member_inv (s\<lparr>panicked := v1\<rparr>) = member_inv s"
  "member_inv (s\<lparr>dataChan := v2\<rparr>) = member_inv s"
  "member_inv (s\<lparr>dataClosed := v3\<rparr>) = member_inv s"
  "member_inv (s\<lparr>batchClosed := v4\<rparr>) = member_inv s"
  "member_inv (s\<lparr>gen := v5\<rparr>) = member_inv s"
  "member_inv (s\<lparr>bat := v6\<rparr>) = member_inv s"
  "member_inv (s\<lparr>orch := v7\<rparr>) = member_inv s"
  "member_inv (s\<lparr>generated := v8\<rparr>) = member_inv s"
  "member_inv (s\<lparr>enqueued := v9\<rparr>) = member_inv s"
  "member_inv (s\<lparr>received := v10\<rparr>) = member_inv s"
  "member_inv (s\<lparr>dropped := v11\<rparr>) = member_inv s"
  "member_inv (s\<lparr>close_log := v12\<rparr>) = member_inv s"
  by (simp_all add: member_inv_def split: gen_state.splits bat_state.splits orch_state.splits)

lemma member_inv_step:
  assumes inv: "member_inv s"
    and step: "step e ev s = Some s'"
  shows "member_inv s'"
  using step
proof (cases rule: step_elim)
  case Cancel
  with inv  show ?thesis
    by (auto)
next
  case GenStart
  with inv  show ?thesis
    by (auto simp: gen_start_def Let_def   split: gen_state.splits if_splits )
next
  case (GenTick input timestamp r)
  with inv  show ?thesis
    by (auto simp: gen_tick_def Let_def   split: gen_state.splits )
next
  case GenSend
  with inv  show ?thesis
    by (auto simp: gen_send_def Let_def   split: gen_state.splits if_splits )
next
  case GenCancel
  with inv  show ?thesis
    by (auto simp: gen_cancel_def Let_def   split: gen_state.splits if_splits )
next
  case BatStart
  with inv  show ?thesis
    by (auto simp: bat_start_def Let_def   split: bat_state.splits if_splits )
next
  case BatCancel
  with inv  show ?thesis
    by (auto simp: bat_cancel_def Let_def   split: bat_state.splits if_splits )
next
  case BatRecv
  with inv  show ?thesis
    by (auto simp: bat_recv_def Let_def   split: bat_state.splits if_splits list.splits )
next
  case BatTick
  with inv  show ?thesis
    by (auto simp: bat_tick_def Let_def   split: bat_state.splits if_splits )
next
  case BatSend
  with inv  show ?thesis
    by (auto simp: bat_send_def Let_def member_inv_def nth_list_update  split: bat_state.splits if_splits )
next
  case BatSendCancel
  with inv  show ?thesis
    by (auto simp: bat_send_cancel_def Let_def   split: bat_state.splits if_splits )
next
  case (WorkCancel i)
  with inv  show ?thesis
    by (auto simp: work_cancel_def Let_def member_inv_def nth_list_update  split: worker_state.splits if_splits )
next
  case (WorkRecv i)
  with inv  show ?thesis
    by (auto simp: work_recv_def Let_def member_inv_def nth_list_update  split: worker_state.splits if_splits list.splits )
next
  case (WorkPublishRet i err)
  with inv  show ?thesis
    by (auto simp: work_publish_ret_def Let_def member_inv_def nth_list_update  split: worker_state.splits if_splits )
next
  case OrchCtx
  with inv  show ?thesis
    by (auto simp: orch_ctx_def Let_def   split: if_splits )
next
  case OrchCloseData
  with inv  show ?thesis
    by (auto simp: orch_close_data_def Let_def   split: if_splits )
next
  case OrchCloseBatch
  with inv  show ?thesis
    by (auto simp: orch_close_batch_def Let_def   split: if_splits )
next
  case (OrchClose err)
  with inv  show ?thesis
    by (auto simp: orch_close_def Let_def   split: if_splits )
qed

lemma cancel_inv_upd [simp]:
  "cancel_inv (s\<lparr>panicked := v0\<rparr>) = cancel_inv s"
  "cancel_inv (s\<lparr>dataChan := v1\<rparr>) = cancel_inv s"
  "cancel_inv (s\<lparr>dataClosed := v2\<rparr>) = cancel_inv s"
  "cancel_inv (s\<lparr>batchChan := v3\<rparr>) = cancel_inv s"
  "cancel_inv (s\<lparr>batchClosed := v4\<rparr>) = cancel_inv s"
  "cancel_inv (s\<lparr>workers := v5\<rparr>) = cancel_inv s"
  "cancel_inv (s\<lparr>generated := v6\<rparr>) = cancel_inv s"
  "cancel_inv (s\<lparr>enqueued := v7\<rparr>) = cancel_inv s"
  "cancel_inv (s\<lparr>received := v8\<rparr>) = cancel_inv s"
  "cancel_inv (s\<lparr>emitted := v9\<rparr>) = cancel_inv s"
  "cancel_inv (s\<lparr>dropped := v10\<rparr>) = cancel_inv s"
  "cancel_inv (s\<lparr>sink_log := v11\<rparr>) = cancel_inv s"
  "cancel_inv (s\<lparr>close_log := v12\<rparr>) = cancel_inv s"
  by (simp_all add: cancel_inv_def split: gen_state.splits bat_state.splits orch_state.splits)

lemma cancel_inv_step:
  assumes closed: "closed_inv s"
    and inv: "cancel_inv s"
    and step: "step e ev s = Some s'"
  shows "cancel_inv s'"
  using step
proof (cases rule: step_elim)
  case Cancel
  with inv closed show ?thesis
    by (auto simp: cancel_inv_def closed_inv_def orch_rank_def)
next
  case GenStart
  with inv closed show ?thesis
    by (auto simp: gen_start_def Let_def cancel_inv_def closed_inv_def orch_rank_def  split: gen_state.splits if_splits )
next
  case (GenTick input timestamp r)
  with inv closed show ?thesis
    by (auto simp: gen_tick_def Let_def cancel_inv_def closed_inv_def orch_rank_def  split: gen_state.splits )
next
  case GenSend
  with inv closed show ?thesis
    by (auto simp: gen_send_def Let_def cancel_inv_def closed_inv_def orch_rank_def  split: gen_state.splits if_splits )
next
  case GenCancel
  with inv closed show ?thesis
    by (auto simp: gen_cancel_def Let_def cancel_inv_def closed_inv_def orch_rank_def  split: gen_state.splits if_splits )
next
  case BatStart
  with inv closed show ?thesis
    by (auto simp: bat_start_def Let_def cancel_inv_def closed_inv_def orch_rank_def  split: bat_state.splits if_splits )
next
  case BatCancel
  with inv closed show ?thesis
    by (auto simp: bat_cancel_def Let_def cancel_inv_def closed_inv_def orch_rank_def  split: bat_state.splits if_splits )
next
  case BatRecv
  with inv closed show ?thesis
    by (auto simp: bat_recv_def Let_def cancel_inv_def closed_inv_def orch_rank_def  split: bat_state.splits if_splits list.splits )
next
  case BatTick
  with inv closed show ?thesis
    by (auto simp: bat_tick_def Let_def cancel_inv_def closed_inv_def orch_rank_def  split: bat_state.splits if_splits )
next
  case BatSend
  with inv closed show ?thesis
    by (auto simp: bat_send_def Let_def cancel_inv_def closed_inv_def orch_rank_def  split: bat_state.splits if_splits )
next
  case BatSendCancel
  with inv closed show ?thesis
    by (auto simp: bat_send_cancel_def Let_def cancel_inv_def closed_inv_def orch_rank_def  split: bat_state.splits if_splits )
next
  case (WorkCancel i)
  with inv closed show ?thesis
    by (auto simp: work_cancel_def Let_def   split: worker_state.splits if_splits )
next
  case (WorkRecv i)
  with inv closed show ?thesis
    by (auto simp: work_recv_def Let_def   split: worker_state.splits if_splits list.splits )
next
  case (WorkPublishRet i err)
  with inv closed show ?thesis
    by (auto simp: work_publish_ret_def Let_def   split: worker_state.splits if_splits )
next
  case OrchCtx
  with inv closed show ?thesis
    by (auto simp: orch_ctx_def Let_def cancel_inv_def closed_inv_def orch_rank_def  split: if_splits )
next
  case OrchCloseData
  with inv closed show ?thesis
    by (auto simp: orch_close_data_def Let_def cancel_inv_def closed_inv_def orch_rank_def  split: if_splits )
next
  case OrchCloseBatch
  with inv closed show ?thesis
    by (auto simp: orch_close_batch_def Let_def cancel_inv_def closed_inv_def orch_rank_def  split: if_splits )
next
  case (OrchClose err)
  with inv closed show ?thesis
    by (auto simp: orch_close_def Let_def cancel_inv_def closed_inv_def orch_rank_def  split: if_splits )
qed

lemma single_list: "length ws \<le> Suc 0 \<Longrightarrow> i < length ws \<Longrightarrow> \<exists>w. ws = [w] \<and> i = 0"
  by (cases ws) auto

lemma single_worker_inv_upd [simp]:
  "single_worker_inv (s\<lparr>ctx_done := v0\<rparr>) = single_worker_inv s"
  "single_worker_inv (s\<lparr>panicked := v1\<rparr>) = single_worker_inv s"
  "single_worker_inv (s\<lparr>dataChan := v2\<rparr>) = single_worker_inv s"
  "single_worker_inv (s\<lparr>dataClosed := v3\<rparr>) = single_worker_inv s"
  "single_worker_inv (s\<lparr>batchClosed := v4\<rparr>) = single_worker_inv s"
  "single_worker_inv (s\<lparr>gen := v5\<rparr>) = single_worker_inv s"
  "single_worker_inv (s\<lparr>bat := v6\<rparr>) = single_worker_inv s"
  "single_worker_inv (s\<lparr>orch := v7\<rparr>) = single_worker_inv s"
  "single_worker_inv (s\<lparr>generated := v8\<rparr>) = single_worker_inv s"
  "single_worker_inv (s\<lparr>enqueued := v9\<rparr>) = single_worker_inv s"
  "single_worker_inv (s\<lparr>received := v10\<rparr>) = single_worker_inv s"
  "single_worker_inv (s\<lparr>dropped := v11\<rparr>) = single_worker_inv s"
  "single_worker_inv (s\<lparr>close_log := v12\<rparr>) = single_worker_inv s"
  by (simp_all add: single_worker_inv_def delivered_def split: gen_state.splits bat_state.splits orch_state.splits)

lemma single_worker_inv_step:
  assumes one: "length (workers s) \<le> Suc 0"
    and inv: "single_worker_inv s"
    and step: "step e ev s = Some s'"
  shows "single_worker_inv s'"
  using step
proof (cases rule: step_elim)
  case Cancel
  with inv one show ?thesis
    by (auto)
next
  case GenStart
  with inv one show ?thesis
    by (auto simp: gen_start_def Let_def   split: gen_state.splits if_splits )
next
  case (GenTick input timestamp r)
  with inv one show ?thesis
    by (auto simp: gen_tick_def Let_def   split: gen_state.splits )
next
  case GenSend
  with inv one show ?thesis
    by (auto simp: gen_send_def Let_def   split: gen_state.splits if_splits )
next
  case GenCancel
  with inv one show ?thesis
    by (auto simp: gen_cancel_def Let_def   split: gen_state.splits if_splits )
next
  case BatStart
  with inv one show ?thesis
    by (auto simp: bat_start_def Let_def   split: bat_state.splits if_splits )
next
  case BatCancel
  with inv one show ?thesis
    by (auto simp: bat_cancel_def Let_def   split: bat_state.splits if_splits )
next
  case BatRecv
  with inv one show ?thesis
    by (auto simp: bat_recv_def Let_def   split: bat_state.splits if_splits list.splits )
next
  case BatTick
  with inv one show ?thesis
    by (auto simp: bat_tick_def Let_def   split: bat_state.splits if_splits )
next
  case BatSend
  with inv one show ?thesis
    by (auto simp: bat_send_def Let_def single_worker_inv_def delivered_def worker_hold_def  split: bat_state.splits if_splits )
next
  case BatSendCancel
  with inv one show ?thesis
    by (auto simp: bat_send_cancel_def Let_def   split: bat_state.splits if_splits )
next
  case (WorkCancel i)
  with inv one show ?thesis
    by (auto simp: work_cancel_def Let_def single_worker_inv_def delivered_def worker_hold_def dest: single_list split: worker_state.splits if_splits )
next
  case (WorkRecv i)
  with inv one show ?thesis
    by (auto simp: work_recv_def Let_def single_worker_inv_def delivered_def worker_hold_def dest: single_list split: worker_state.splits if_splits list.splits )
next
  case (WorkPublishRet i err)
  with inv one show ?thesis
    by (auto simp: work_publish_ret_def Let_def single_worker_inv_def delivered_def worker_hold_def dest: single_list split: worker_state.splits if_splits )
next
  case OrchCtx
  with inv one show ?thesis
    by (auto simp: orch_ctx_def Let_def   split: if_splits )
next
  case OrchCloseData
  with inv one show ?thesis
    by (auto simp: orch_close_data_def Let_def   split: if_splits )
next
  case OrchCloseBatch
  with inv one show ?thesis
    by (auto simp: orch_close_batch_def Let_def   split: if_splits )
next
  case (OrchClose err)
  with inv one show ?thesis
    by (auto simp: orch_close_def Let_def   split: if_splits )
qed

subsection \<open>The invariants hold initially, hence in every run\<close>

lemma chan_inv_init: "chan_inv (init e)"
  by (simp add: chan_inv_def init_def)

lemma gen_inv_init: "gen_inv (init e)"
  by (simp add: gen_inv_def init_def)

lemma closed_inv_init: "closed_inv (init e)"
  by (simp add: closed_inv_def init_def orch_rank_def)

lemma cancel_inv_init: "cancel_inv (init e)"
  by (simp add: cancel_inv_def init_def orch_rank_def)

lemma close_inv_init: "close_inv e (init e)"
  by (simp add: close_inv_def init_def)

lemma size_inv_init: "size_inv e (init e)"
  by (simp add: size_inv_def init_def)

lemma flow_inv_init: "flow_inv (init e)"
  by (simp add: flow_inv_def init_def bat_hold_def)

lemma member_inv_init: "member_inv (init e)"
  by (simp add: member_inv_def init_def)

lemma single_worker_inv_init: "single_worker_inv (init e)"
  by (simp add: single_worker_inv_def init_def delivered_def worker_hold_def)

lemma run_chan_inv: "run e evs (init e) = Some s \<Longrightarrow> chan_inv s"
  by (rule run_preserves[where P = chan_inv, OF chan_inv_step _ chan_inv_init])

lemma run_gen_inv: "run e evs (init e) = Some s \<Longrightarrow> gen_inv s"
  by (rule run_preserves[where P = gen_inv, OF gen_inv_step _ gen_inv_init])


lemma run_cancel_inv:
  assumes "run e evs (init e) = Some s"
  shows "cancel_inv s"
proof -
  have "closed_inv s \<and> cancel_inv s"
  proof (rule run_preserves[where P = "\<lambda>s. closed_inv s \<and> cancel_inv s", OF _ assms])
    show "closed_inv (init e) \<and> cancel_inv (init e)"
      by (simp add: closed_inv_init cancel_inv_init)
  next
    fix ev s s'
    assume "closed_inv s \<and> cancel_inv s" and "step e ev s = Some s'"
    then show "closed_inv s' \<and> cancel_inv s'"
      by (blast intro: closed_inv_step cancel_inv_step)
  qed
  then show ?thesis ..
qed

lemma run_close_inv: "run e evs (init e) = Some s \<Longrightarrow> close_inv e s"
  by (rule run_preserves[where P = "close_inv e", OF close_inv_step _ close_inv_init])

lemma run_size_inv:
  assumes "1 \<le> BatchSize (config e)" and "run e evs (init e) = Some s"
  shows "size_inv e s"
  by (rule run_preserves[where P = "size_inv e", OF size_inv_step[OF assms(1)] assms(2) size_inv_init])

lemma run_flow_inv: "run e evs (init e) = Some s \<Longrightarrow> flow_inv s"
  by (rule run_preserves[where P = flow_inv, OF flow_inv_step _ flow_inv_init])

lemma run_member_inv: "run e evs (init e) = Some s \<Longrightarrow> member_inv s"
  by (rule run_preserves[where P = member_inv, OF member_inv_step _ member_inv_init])

lemma run_single_worker_inv:
  assumes "MaxWorkers (config e) \<le> 1" and "run e evs (init e) = Some s"
  shows "single_worker_inv s"
proof -
  have "close_inv e s \<and> single_worker_inv s"
  proof (rule run_preserves[where P = "\<lambda>s. close_inv e s \<and> single_worker_inv s", OF _ assms(2)])
    show "close_inv e (init e) \<and> single_worker_inv (init e)"
      by (simp add: close_inv_init single_worker_inv_init)
  next
    fix ev s s'
    assume a: "close_inv e s \<and> single_worker_inv s" and st: "step e ev s = Some s'"
    from a assms(1) have "length (workers s) \<le> Suc 0"
      by (simp add: close_inv_def)
    with a st show "close_inv e s' \<and> single_worker_inv s'"
      by (blast intro: close_inv_step single_worker_inv_step)
  qed
  then show ?thesis ..
qed

lemma run_Some_the: "run e evs s \<noteq> None \<Longrightarrow> run e evs s = Some (the (run e evs s))"
  by auto

lemma sched_small_run: "run engine3 sched_small (init engine3) = Some final_small"
  unfolding final_small_def by (rule run_Some_the) code_simp

section \<open>The claims\<close>

subsection \<open>Quality\<close>

lemma step_generated_quality:
  assumes step: "step e ev s = Some s'"
  shows "map Quality (generated s') = map Quality (generated s) @ map determineQuality (draws [ev])"
  using step
proof (cases rule: step_elim)
  case Cancel
  then show ?thesis
    by (auto)
next
  case GenStart
  then show ?thesis
    by (auto simp: gen_start_def Let_def   split: gen_state.splits if_splits )
next
  case (GenTick input timestamp r)
  then show ?thesis
    by (auto simp: gen_tick_def Let_def   split: gen_state.splits )
next
  case GenSend
  then show ?thesis
    by (auto simp: gen_send_def Let_def   split: gen_state.splits if_splits )
next
  case GenCancel
  then show ?thesis
    by (auto simp: gen_cancel_def Let_def   split: gen_state.splits if_splits )
next
  case BatStart
  then show ?thesis
    by (auto simp: bat_start_def Let_def   split: bat_state.splits if_splits )
next
  case BatCancel
  then show ?thesis
    by (auto simp: bat_cancel_def Let_def   split: bat_state.splits if_splits )
next
  case BatRecv
  then show ?thesis
    by (auto simp: bat_recv_def Let_def   split: bat_state.splits if_splits list.splits )
next
  case BatTick
  then show ?thesis
    by (auto simp: bat_tick_def Let_def   split: bat_state.splits if_splits )
next
  case BatSend
  then show ?thesis
    by (auto simp: bat_send_def Let_def   split: bat_state.splits if_splits )
next
  case BatSendCancel
  then show ?thesis
    by (auto simp: bat_send_cancel_def Let_def   split: bat_state.splits if_splits )
next
  case (WorkCancel i)
  then show ?thesis
    by (auto simp: work_cancel_def Let_def   split: worker_state.splits if_splits )
next
  case (WorkRecv i)
  then show ?thesis
    by (auto simp: work_recv_def Let_def   split: worker_state.splits if_splits list.splits )
next
  case (WorkPublishRet i err)
  then show ?thesis
    by (auto simp: work_publish_ret_def Let_def   split: worker_state.splits if_splits )
next
  case OrchCtx
  then show ?thesis
    by (auto simp: orch_ctx_def Let_def   split: if_splits )
next
  case OrchCloseData
  then show ?thesis
    by (auto simp: orch_close_data_def Let_def   split: if_splits )
next
  case OrchCloseBatch
  then show ?thesis
    by (auto simp: orch_close_batch_def Let_def   split: if_splits )
next
  case (OrchClose err)
  then show ?thesis
    by (auto simp: orch_close_def Let_def   split: if_splits )
qed

lemma draws_Cons: "draws (ev # evs) = draws [ev] @ draws evs"
  by (cases ev) simp_all

lemma run_generated_quality:
  "run e evs s0 = Some s \<Longrightarrow>
   map Quality (generated s) = map Quality (generated s0) @ map determineQuality (draws evs)"
proof (induction evs arbitrary: s0)
  case Nil
  then show ?case by simp
next
  case (Cons ev evs)
  from Cons.prems obtain t where t: "step e ev s0 = Some t" and r: "run e evs t = Some s"
    by (auto split: option.splits)
  from Cons.IH[OF r] step_generated_quality[OF t] show ?case
    by (simp add: draws_Cons[of ev evs])
qed

lemma sched_quality_run: "run engine3 sched_quality (init engine3) = Some final_quality"
  unfolding final_quality_def by (rule run_Some_the) code_simp

text \<open>
  Claim C4. Every envelope gets its quality from the one draw \<open>r\<close> of its tick, by
  cumulative thresholds: in every run the qualities of the envelopes built are, one by
  one and in order, \<open>determineQuality\<close> of the draws of the run's ticks (and the envelopes
  that enter the data channel are among those built); \<open>r < 0.01\<close> gives CORRUPT,
  \<open>0.01 \<le> r < 0.03\<close> gives PARTIAL, \<open>0.03 \<le> r < 0.08\<close> gives NOISY, \<open>r \<ge> 0.08\<close> gives
  OK, and every draw gives one of the four values.
  (A draw is a multiple of \<open>2\<^sup>-\<^sup>5\<^sup>3\<close> in \<open>[0, 1)\<close>; no such number lies between a decimal
  threshold and the nearest double, so the comparison of doubles and the comparison of
  the reals they denote agree on every draw.)
\<close>

theorem quality_by_thresholds:
  assumes "run e evs (init e) = Some s"
  shows "map Quality (generated s) = map determineQuality (draws evs) \<and>
         prefix (enqueued s) (generated s) \<and>
         (\<forall>r. (r < 0.01 \<longrightarrow> determineQuality r = QualityCorrupt) \<and>
              (0.01 \<le> r \<and> r < 0.03 \<longrightarrow> determineQuality r = QualityPartial) \<and>
              (0.03 \<le> r \<and> r < 0.08 \<longrightarrow> determineQuality r = QualityNoisy) \<and>
              (0.08 \<le> r \<longrightarrow> determineQuality r = QualityOK) \<and>
              determineQuality r \<in> {QualityOK, QualityNoisy, QualityPartial, QualityCorrupt})"
proof -
  have a: "map Quality (generated s) = map determineQuality (draws evs)"
    using run_generated_quality[OF assms] by (simp add: init_def)
  have b: "prefix (enqueued s) (generated s)"
    using run_gen_inv[OF assms] by (simp add: gen_inv_def)
  have c: "\<forall>r. (r < 0.01 \<longrightarrow> determineQuality r = QualityCorrupt) \<and>
              (0.01 \<le> r \<and> r < 0.03 \<longrightarrow> determineQuality r = QualityPartial) \<and>
              (0.03 \<le> r \<and> r < 0.08 \<longrightarrow> determineQuality r = QualityNoisy) \<and>
              (0.08 \<le> r \<longrightarrow> determineQuality r = QualityOK) \<and>
              determineQuality r \<in> {QualityOK, QualityNoisy, QualityPartial, QualityCorrupt}"
    by (simp add: determineQuality_def)
  from a b c show ?thesis by blast
qed

theorem quality_by_thresholds_witness:
  "run engine3 sched_quality (init engine3) = Some final_quality \<and>
   draws sched_quality = [0.005, 0.01, 0.03, 0.08] \<and>
   map Quality (generated final_quality) =
     [QualityCorrupt, QualityPartial, QualityNoisy, QualityOK] \<and>
   map Quality (enqueued final_quality) =
     [QualityCorrupt, QualityPartial, QualityNoisy, QualityOK]"
proof -
  note t = quality_by_thresholds[OF sched_quality_run]
  have d: "draws sched_quality = [0.005, 0.01, 0.03, 0.08]"
    by (simp add: sched_quality_def)
  from t have q1: "determineQuality 0.005 = QualityCorrupt"
    by (elim conjE allE[of _ "0.005"]) simp
  from t have q2: "determineQuality 0.01 = QualityPartial"
    by (elim conjE allE[of _ "0.01"]) simp
  from t have q3: "determineQuality 0.03 = QualityNoisy"
    by (elim conjE allE[of _ "0.03"]) simp
  from t have q4: "determineQuality 0.08 = QualityOK"
    by (elim conjE allE[of _ "0.08"]) simp
  from t d q1 q2 q3 q4 have g: "map Quality (generated final_quality) =
     [QualityCorrupt, QualityPartial, QualityNoisy, QualityOK]"
    by simp
  have l: "length (enqueued final_quality) = length (generated final_quality)"
    by code_simp
  from t have "prefix (enqueued final_quality) (generated final_quality)" by blast
  with l have "enqueued final_quality = generated final_quality"
    by (auto simp: prefix_def)
  with g d sched_quality_run show ?thesis by simp
qed

subsection \<open>Channel capacities\<close>

text \<open>
  Claim C10. Whatever the configuration, the data channel never holds more than 100
  envelopes and the batch channel never more than 10 batches; so the envelopes sent are
  at most 100 ahead of those the batch processor has received, and the envelopes built
  at most 101 ahead.
\<close>

theorem channel_capacities:
  assumes "run e evs (init e) = Some s"
  shows "length (dataChan s) \<le> 100 \<and> length (batchChan s) \<le> 10 \<and>
         length (enqueued s) \<le> received s + 100 \<and>
         length (generated s) \<le> received s + 101"
  using run_chan_inv[OF assms] run_gen_inv[OF assms]
  by (simp add: chan_inv_def gen_inv_def dataChan_cap_def batchChan_cap_def)

theorem channel_capacities_witness:
  "run engine3 sched_small (init engine3) = Some final_small \<and>
   length (dataChan final_small) \<le> 100 \<and> length (batchChan final_small) \<le> 10 \<and>
   length (enqueued final_small) \<le> received final_small + 100 \<and>
   length (generated final_small) \<le> received final_small + 101"
  using channel_capacities[OF sched_small_run] sched_small_run by simp

subsection \<open>Batch sizes\<close>

text \<open>
  Claim C6. When the configured batch size is at least 1, every batch that has entered
  the batch channel has between 1 and that many envelopes; so has every batch still in
  the channel and every batch handed to the publisher.
\<close>

theorem batch_length_bounds:
  assumes "1 \<le> BatchSize (config e)" and "run e evs (init e) = Some s"
  shows "(\<forall>batch \<in> set (emitted s).
            1 \<le> length batch \<and> int (length batch) \<le> BatchSize (config e)) \<and>
         (\<forall>batch \<in> set (batchChan s).
            1 \<le> length batch \<and> int (length batch) \<le> BatchSize (config e)) \<and>
         (\<forall>batch \<in> set (delivered s).
            1 \<le> length batch \<and> int (length batch) \<le> BatchSize (config e))"
proof -
  from run_size_inv[OF assms] have a: "\<forall>batch \<in> set (emitted s). size_ok e batch"
    by (simp add: size_inv_def list_all_iff)
  from run_member_inv[OF assms(2)]
  have b: "\<forall>batch \<in> set (batchChan s). batch \<in> set (emitted s)"
    and c: "\<forall>batch \<in> set (delivered s). batch \<in> set (emitted s)"
    by (auto simp: member_inv_def delivered_def)
  from a b c show ?thesis
    by (simp add: size_ok_def)
qed

subsection \<open>Closing the sink\<close>

lemma closed_sink_untouched:
  assumes cl: "close_log s \<noteq> []"
    and inv: "close_inv e s"
    and step: "step e ev s = Some s'"
  shows "sink_log s' = sink_log s \<and> close_log s' = close_log s"
  using step
proof (cases rule: step_elim)
  case Cancel
  with inv cl show ?thesis
    by (auto simp: close_inv_def list_all_length split: orch_state.splits)
next
  case GenStart
  with inv cl show ?thesis
    by (auto simp: gen_start_def Let_def close_inv_def list_all_length  split: gen_state.splits if_splits orch_state.splits)
next
  case (GenTick input timestamp r)
  with inv cl show ?thesis
    by (auto simp: gen_tick_def Let_def close_inv_def list_all_length  split: gen_state.splits orch_state.splits)
next
  case GenSend
  with inv cl show ?thesis
    by (auto simp: gen_send_def Let_def close_inv_def list_all_length  split: gen_state.splits if_splits orch_state.splits)
next
  case GenCancel
  with inv cl show ?thesis
    by (auto simp: gen_cancel_def Let_def close_inv_def list_all_length  split: gen_state.splits if_splits orch_state.splits)
next
  case BatStart
  with inv cl show ?thesis
    by (auto simp: bat_start_def Let_def close_inv_def list_all_length  split: bat_state.splits if_splits orch_state.splits)
next
  case BatCancel
  with inv cl show ?thesis
    by (auto simp: bat_cancel_def Let_def close_inv_def list_all_length  split: bat_state.splits if_splits orch_state.splits)
next
  case BatRecv
  with inv cl show ?thesis
    by (auto simp: bat_recv_def Let_def close_inv_def list_all_length  split: bat_state.splits if_splits list.splits orch_state.splits)
next
  case BatTick
  with inv cl show ?thesis
    by (auto simp: bat_tick_def Let_def close_inv_def list_all_length  split: bat_state.splits if_splits orch_state.splits)
next
  case BatSend
  with inv cl show ?thesis
    by (auto simp: bat_send_def Let_def close_inv_def list_all_length  split: bat_state.splits if_splits orch_state.splits)
next
  case BatSendCancel
  with inv cl show ?thesis
    by (auto simp: bat_send_cancel_def Let_def close_inv_def list_all_length  split: bat_state.splits if_splits orch_state.splits)
next
  case (WorkCancel i)
  with inv cl show ?thesis
    by (auto simp: work_cancel_def Let_def close_inv_def list_all_length  split: worker_state.splits if_splits orch_state.splits)
next
  case (WorkRecv i)
  with inv cl show ?thesis
    by (auto simp: work_recv_def Let_def close_inv_def list_all_length  split: worker_state.splits if_splits list.splits orch_state.splits)
next
  case (WorkPublishRet i err)
  with inv cl show ?thesis
    by (auto simp: work_publish_ret_def Let_def close_inv_def list_all_length  split: worker_state.splits if_splits orch_state.splits)
next
  case OrchCtx
  with inv cl show ?thesis
    by (auto simp: orch_ctx_def Let_def close_inv_def list_all_length  split: if_splits orch_state.splits)
next
  case OrchCloseData
  with inv cl show ?thesis
    by (auto simp: orch_close_data_def Let_def close_inv_def list_all_length  split: if_splits orch_state.splits)
next
  case OrchCloseBatch
  with inv cl show ?thesis
    by (auto simp: orch_close_batch_def Let_def close_inv_def list_all_length  split: if_splits orch_state.splits)
next
  case (OrchClose err)
  with inv cl show ?thesis
    by (auto simp: orch_close_def Let_def close_inv_def list_all_length  split: if_splits orch_state.splits)
qed

lemma sched7_drained_run: "run engine3 sched7_drained (init engine3) = Some final7_drained"
  unfolding final7_drained_def by (rule run_Some_the) code_simp

lemma sched_failing_run: "run engine3 sched_failing (init engine3) = Some final_failing"
  unfolding final_failing_def by (rule run_Some_the) code_simp

lemma sched_publishing_run: "run engine3 sched_publishing (init engine3) = Some mid_publishing"
  unfolding mid_publishing_def by (rule run_Some_the) code_simp

text \<open>
  Claim C2. In every run of \<^verbatim>\<open>Start\<close> the publisher's \<^verbatim>\<open>Close\<close> is called at most
  once, and exactly once when \<^verbatim>\<open>Start\<close> has returned; once it has been called every
  worker has returned, so no \<^verbatim>\<open>PublishBatch\<close> call is outstanding, and no later step
  calls the publisher again.
\<close>

theorem sink_closed_once_after_workers:
  assumes "run e evs (init e) = Some s"
  shows "length (close_log s) \<le> 1 \<and>
         (\<forall>r. orch s = OReturned r \<longrightarrow> length (close_log s) = 1) \<and>
         (close_log s \<noteq> [] \<longrightarrow>
            (\<forall>w \<in> set (workers s). w = WDone) \<and>
            (\<forall>ev s'. step e ev s = Some s' \<longrightarrow>
               sink_log s' = sink_log s \<and> close_log s' = close_log s))"
proof -
  note inv = run_close_inv[OF assms]
  have a: "length (close_log s) \<le> 1"
    using inv by (auto simp: close_inv_def split: orch_state.splits)
  have b: "\<forall>r. orch s = OReturned r \<longrightarrow> length (close_log s) = 1"
    using inv by (auto simp: close_inv_def split: orch_state.splits)
  have c: "close_log s \<noteq> [] \<longrightarrow> (\<forall>w \<in> set (workers s). w = WDone)"
    using inv by (auto simp: close_inv_def list_all_iff split: orch_state.splits)
  have d: "close_log s \<noteq> [] \<longrightarrow>
           (\<forall>ev s'. step e ev s = Some s' \<longrightarrow>
              sink_log s' = sink_log s \<and> close_log s' = close_log s)"
    using closed_sink_untouched[OF _ inv] by blast
  from a b c d show ?thesis by blast
qed

theorem sink_closed_once_after_workers_witness:
  "run engine3 sched7_drained (init engine3) = Some final7_drained \<and>
   orch final7_drained = OReturned None \<and>
   length (close_log final7_drained) = 1 \<and>
   list_all (\<lambda>w. w = WDone) (workers final7_drained) \<and>
   map_option sink_log (step engine3 Cancel final7_drained) = Some (sink_log final7_drained) \<and>
   map_option close_log (step engine3 Cancel final7_drained) = Some (close_log final7_drained)"
proof -
  note t = sink_closed_once_after_workers[OF sched7_drained_run]
  have a: "orch final7_drained = OReturned None" by code_simp
  from t a have b: "length (close_log final7_drained) = 1" by blast
  then have ne: "close_log final7_drained \<noteq> []" by auto
  from t ne have c: "list_all (\<lambda>w. w = WDone) (workers final7_drained)"
    by (simp add: list_all_iff)
  have "step engine3 Cancel final7_drained \<noteq> None" by code_simp
  then obtain s' where s': "step engine3 Cancel final7_drained = Some s'" by auto
  from t ne s' have d: "sink_log s' = sink_log final7_drained \<and>
                        close_log s' = close_log final7_drained"
    by blast
  from a b c d s' sched7_drained_run show ?thesis by simp
qed

subsection \<open>Errors\<close>

text \<open>
  Claim C5. When \<^verbatim>\<open>Start\<close> has returned, it has returned an error exactly when the
  one call of \<^verbatim>\<open>Close\<close> failed. A \<^verbatim>\<open>PublishBatch\<close> call that fails is recorded with
  its error and puts the worker back at its select; it changes nothing else, so it neither
  ends the run nor reaches the value \<^verbatim>\<open>Start\<close> returns.
\<close>

theorem start_error_iff_close_fails:
  assumes "run e evs (init e) = Some s"
  shows "(\<forall>r. orch s = OReturned r \<longrightarrow>
            (\<exists>err. close_log s = [err] \<and> (r \<noteq> None \<longleftrightarrow> err \<noteq> None))) \<and>
         (\<forall>i msg s'. step e (WorkPublishRet i (Some msg)) s = Some s' \<longrightarrow>
            (\<exists>batch. workers s ! i = WPublishing batch \<and>
               s' = s\<lparr>workers := (workers s)[i := WIdle],
                      sink_log := sink_log s @ [(batch, Some msg)]\<rparr>))"
proof -
  note inv = run_close_inv[OF assms]
  have a: "\<forall>r. orch s = OReturned r \<longrightarrow>
            (\<exists>err. close_log s = [err] \<and> (r \<noteq> None \<longleftrightarrow> err \<noteq> None))"
    using inv by (auto simp: close_inv_def wrap_close_error_def split: orch_state.splits option.splits)
  have b: "\<forall>i msg s'. step e (WorkPublishRet i (Some msg)) s = Some s' \<longrightarrow>
            (\<exists>batch. workers s ! i = WPublishing batch \<and>
               s' = s\<lparr>workers := (workers s)[i := WIdle],
                      sink_log := sink_log s @ [(batch, Some msg)]\<rparr>)"
    by (auto simp: step_def work_publish_ret_def split: if_splits worker_state.splits)
  from a b show ?thesis by blast
qed

theorem start_error_iff_close_fails_witness:
  "run engine3 sched_failing (init engine3) = Some final_failing \<and>
   orch final_failing = OReturned (Some ''error closing publisher: close failed'') \<and>
   close_log final_failing = [Some ''close failed''] \<and>
   map snd (sink_log final_failing) = [Some ''publish failed'', None] \<and>
   run engine3 sched_publishing (init engine3) = Some mid_publishing \<and>
   map_option workers (step engine3 (WorkPublishRet 0 (Some ''publish failed'')) mid_publishing)
     = Some [WIdle] \<and>
   map_option orch (step engine3 (WorkPublishRet 0 (Some ''publish failed'')) mid_publishing)
     = Some OWaitCtx"
proof -
  have a: "orch final_failing = OReturned (Some ''error closing publisher: close failed'')"
    by code_simp
  have b: "close_log final_failing = [Some ''close failed'']" by code_simp
  have c: "map snd (sink_log final_failing) = [Some ''publish failed'', None]" by code_simp
  have d: "step engine3 (WorkPublishRet 0 (Some ''publish failed'')) mid_publishing \<noteq> None"
    by code_simp
  then obtain s' where
    s': "step engine3 (WorkPublishRet 0 (Some ''publish failed'')) mid_publishing = Some s'"
    by auto
  have w: "workers mid_publishing ! 0 \<noteq> WIdle \<and> length (workers mid_publishing) = 1"
    by code_simp
  have o: "orch mid_publishing = OWaitCtx" by code_simp
  from start_error_iff_close_fails[OF sched_publishing_run] s'
  have "\<exists>batch. s' = mid_publishing\<lparr>workers := (workers mid_publishing)[0 := WIdle],
                 sink_log := sink_log mid_publishing @ [(batch, Some ''publish failed'')]\<rparr>"
    by blast
  with w o have e: "workers s' = [WIdle] \<and> orch s' = OWaitCtx"
    by (cases "workers mid_publishing") auto
  from start_error_iff_close_fails[OF sched_failing_run] a b c e s'
    sched_failing_run sched_publishing_run
  show ?thesis by simp
qed

theorem batch_length_bounds_witness:
  "1 \<le> BatchSize (config engine3) \<and>
   run engine3 sched7_drained (init engine3) = Some final7_drained \<and>
   map length (emitted final7_drained) = [3, 3, 1] \<and>
   list_all (\<lambda>batch. 1 \<le> length batch \<and> int (length batch) \<le> 3) (emitted final7_drained)"
proof -
  have p: "1 \<le> BatchSize (config engine3)" by code_simp
  have q: "BatchSize (config engine3) = 3" by code_simp
  have l: "map length (emitted final7_drained) = [3, 3, 1]" by code_simp
  from batch_length_bounds[OF p sched7_drained_run] p q l sched7_drained_run
  show ?thesis by (simp add: list_all_iff)
qed

subsection \<open>The batch processor's flush rules\<close>

lemma sched_two_held_run: "run engine3 sched_two_held (init engine3) = Some mid_two_held"
  unfolding mid_two_held_def by (rule run_Some_the) code_simp






subsection \<open>Where the envelopes go\<close>

lemma tickfree_inv_upd [simp]:
  "tickfree_inv e (s\<lparr>ctx_done := v0\<rparr>) = tickfree_inv e s"
  "tickfree_inv e (s\<lparr>panicked := v1\<rparr>) = tickfree_inv e s"
  "tickfree_inv e (s\<lparr>dataChan := v2\<rparr>) = tickfree_inv e s"
  "tickfree_inv e (s\<lparr>dataClosed := v3\<rparr>) = tickfree_inv e s"
  "tickfree_inv e (s\<lparr>batchChan := v4\<rparr>) = tickfree_inv e s"
  "tickfree_inv e (s\<lparr>batchClosed := v5\<rparr>) = tickfree_inv e s"
  "tickfree_inv e (s\<lparr>gen := v6\<rparr>) = tickfree_inv e s"
  "tickfree_inv e (s\<lparr>workers := v7\<rparr>) = tickfree_inv e s"
  "tickfree_inv e (s\<lparr>orch := v8\<rparr>) = tickfree_inv e s"
  "tickfree_inv e (s\<lparr>generated := v9\<rparr>) = tickfree_inv e s"
  "tickfree_inv e (s\<lparr>enqueued := v10\<rparr>) = tickfree_inv e s"
  "tickfree_inv e (s\<lparr>received := v11\<rparr>) = tickfree_inv e s"
  "tickfree_inv e (s\<lparr>dropped := v12\<rparr>) = tickfree_inv e s"
  "tickfree_inv e (s\<lparr>sink_log := v13\<rparr>) = tickfree_inv e s"
  "tickfree_inv e (s\<lparr>close_log := v14\<rparr>) = tickfree_inv e s"
  by (simp_all add: tickfree_inv_def split: gen_state.splits bat_state.splits orch_state.splits)

lemma tickfree_inv_step:
  assumes pos: "1 \<le> BatchSize (config e)"
    and sz: "size_inv e s"
    and nt: "ev \<noteq> BatTick"
    and inv: "tickfree_inv e s"
    and step: "step e ev s = Some s'"
  shows "tickfree_inv e s'"
  using step
proof (cases rule: step_elim)
  case Cancel
  with inv pos sz nt show ?thesis
    by (auto)
next
  case GenStart
  with inv pos sz nt show ?thesis
    by (auto simp: gen_start_def Let_def   split: gen_state.splits if_splits )
next
  case (GenTick input timestamp r)
  with inv pos sz nt show ?thesis
    by (auto simp: gen_tick_def Let_def   split: gen_state.splits )
next
  case GenSend
  with inv pos sz nt show ?thesis
    by (auto simp: gen_send_def Let_def   split: gen_state.splits if_splits )
next
  case GenCancel
  with inv pos sz nt show ?thesis
    by (auto simp: gen_cancel_def Let_def   split: gen_state.splits if_splits )
next
  case BatStart
  with inv pos sz nt show ?thesis
    by (auto simp: bat_start_def Let_def tickfree_inv_def full_batch_def size_inv_def size_ok_def  split: bat_state.splits if_splits )
next
  case BatCancel
  with inv pos sz nt show ?thesis
    by (auto simp: bat_cancel_def Let_def tickfree_inv_def full_batch_def size_inv_def size_ok_def  split: bat_state.splits if_splits )
next
  case BatRecv
  with inv pos sz nt show ?thesis
    by (auto simp: bat_recv_def Let_def tickfree_inv_def full_batch_def size_inv_def size_ok_def  split: bat_state.splits if_splits list.splits )
next
  case BatTick
  with inv pos sz nt show ?thesis
    by (auto simp: bat_tick_def Let_def tickfree_inv_def full_batch_def size_inv_def size_ok_def  split: bat_state.splits if_splits )
next
  case BatSend
  with inv pos sz nt show ?thesis
    by (auto simp: bat_send_def Let_def tickfree_inv_def full_batch_def size_inv_def size_ok_def  split: bat_state.splits if_splits )
next
  case BatSendCancel
  with inv pos sz nt show ?thesis
    by (auto simp: bat_send_cancel_def Let_def tickfree_inv_def full_batch_def size_inv_def size_ok_def  split: bat_state.splits if_splits )
next
  case (WorkCancel i)
  with inv pos sz nt show ?thesis
    by (auto simp: work_cancel_def Let_def   split: worker_state.splits if_splits )
next
  case (WorkRecv i)
  with inv pos sz nt show ?thesis
    by (auto simp: work_recv_def Let_def   split: worker_state.splits if_splits list.splits )
next
  case (WorkPublishRet i err)
  with inv pos sz nt show ?thesis
    by (auto simp: work_publish_ret_def Let_def   split: worker_state.splits if_splits )
next
  case OrchCtx
  with inv pos sz nt show ?thesis
    by (auto simp: orch_ctx_def Let_def   split: if_splits )
next
  case OrchCloseData
  with inv pos sz nt show ?thesis
    by (auto simp: orch_close_data_def Let_def   split: if_splits )
next
  case OrchCloseBatch
  with inv pos sz nt show ?thesis
    by (auto simp: orch_close_batch_def Let_def   split: if_splits )
next
  case (OrchClose err)
  with inv pos sz nt show ?thesis
    by (auto simp: orch_close_def Let_def   split: if_splits )
qed

lemma tickfree_inv_init: "tickfree_inv e (init e)"
  by (simp add: tickfree_inv_def init_def)

lemma run_tickfree_inv:
  assumes "1 \<le> BatchSize (config e)" and "BatTick \<notin> set evs"
    and "run e evs s0 = Some s" and "size_inv e s0" and "tickfree_inv e s0"
  shows "size_inv e s \<and> tickfree_inv e s"
  using assms(2-5)
proof (induction evs arbitrary: s0)
  case Nil
  then show ?case by simp
next
  case (Cons ev evs)
  from Cons.prems(2) obtain t where t: "step e ev s0 = Some t" and r: "run e evs t = Some s"
    by (auto split: option.splits)
  from Cons.prems(1) have nt: "ev \<noteq> BatTick" and rest: "BatTick \<notin> set evs"
    by auto
  have "size_inv e t"
    by (rule size_inv_step[OF assms(1) Cons.prems(3) t])
  moreover have "tickfree_inv e t"
    by (rule tickfree_inv_step[OF assms(1) Cons.prems(3) nt Cons.prems(4) t])
  ultimately show ?case
    using Cons.IH[OF rest r] by blast
qed

lemma full_concat: "list_all (\<lambda>b. length b = n) xs \<Longrightarrow> length (concat xs) = n * length xs"
  by (induction xs) auto

lemma full_map: "list_all (\<lambda>b. length b = n) xs \<Longrightarrow> map length xs = replicate (length xs) n"
  by (induction xs) auto

lemma sizes_3_3_1:
  assumes full: "list_all (\<lambda>b. length b = 3) (butlast bs)"
    and bound: "list_all (\<lambda>b. 1 \<le> length b \<and> length b \<le> 3) bs"
    and total: "length (concat bs) = 7"
  shows "map length bs = [3, 3, 1]"
proof -
  from total have ne: "bs \<noteq> []" by auto
  then have split: "bs = butlast bs @ [last bs]" by simp
  define k where "k = length (butlast bs)"
  define r where "r = length (last bs)"
  have "length (concat bs) = length (concat (butlast bs)) + r"
    unfolding r_def by (subst split) simp
  with full_concat[OF full] total have eq: "3 * k + r = 7"
    by (simp add: k_def)
  from ne bound have "1 \<le> r \<and> r \<le> 3"
    by (simp add: r_def list_all_iff)
  with eq have kr: "k = 2 \<and> r = 1" by arith
  have "map length bs = map length (butlast bs) @ [r]"
    unfolding r_def by (subst split) simp
  also have "map length (butlast bs) = replicate k 3"
    using full_map[OF full] by (simp add: k_def)
  finally show ?thesis
    using kr by (simp add: numeral_2_eq_2)
qed

lemma sched1_fed_run: "run engine3 sched1_fed (init engine3) = Some fed1"
  unfolding fed1_def by (rule run_Some_the) code_simp

lemma sched1_left_run: "run engine3 sched1_left (init engine3) = Some final1_left"
  unfolding final1_left_def by (rule run_Some_the) code_simp

lemma sched7_six_run: "run engine3 sched7_six (init engine3) = Some six7"
  unfolding six7_def by (rule run_Some_the) code_simp

lemma sched7_undrained_run: "run engine3 sched7_undrained (init engine3) = Some final7_undrained"
  unfolding final7_undrained_def by (rule run_Some_the) code_simp

lemma concat_nonempty_Nil:
  "list_all (\<lambda>b. b \<noteq> []) bs \<Longrightarrow> concat bs = [] \<Longrightarrow> bs = []"
  by (cases bs) auto

text \<open>
  Claim C1, as the code has it. The batches that have entered the batch channel, one
  after the other, are an initial segment of the envelopes that have entered the data
  channel, and what the data channel holds is their final segment: no envelope is in two
  batches and none is out of order. As long as the context is not cancelled none is lost:
  the envelopes sent are exactly those batches, then the batch in the batch processor's
  hand, then the envelopes still in the data channel. With one worker the batches that
  have entered the batch channel are, in this order, those handed to the publisher in
  calls that have returned, the one inside a call, and those still in the batch channel.
  After cancellation the batch processor and the workers return on \<^verbatim>\<open>ctx.Done()\<close>
  without draining their channels: an envelope still in the data channel then reaches no
  batch, and a batch still in the batch channel no publisher.
\<close>

theorem envelope_accounting:
  assumes "run e evs (init e) = Some s"
  shows "prefix (concat (emitted s)) (enqueued s) \<and>
         suffix (dataChan s) (enqueued s) \<and>
         (\<not> ctx_done s \<longrightarrow>
            enqueued s = concat (emitted s) @ bat_hold (bat s) @ dataChan s) \<and>
         (MaxWorkers (config e) = 1 \<longrightarrow>
            emitted s = delivered s @ concat (map worker_hold (workers s)) @ batchChan s)"
proof -
  have fl: "enqueued s = concat (emitted s) @ bat_hold (bat s) @ dropped s @ dataChan s"
    and dr: "\<not> ctx_done s \<longrightarrow> dropped s = []"
    using run_flow_inv[OF assms] by (auto simp: flow_inv_def)
  have a: "prefix (concat (emitted s)) (enqueued s)"
    by (subst fl) simp
  have b: "suffix (dataChan s) (enqueued s)"
    by (subst fl) (simp add: suffix_def)
  have c: "\<not> ctx_done s \<longrightarrow>
            enqueued s = concat (emitted s) @ bat_hold (bat s) @ dataChan s"
    using fl dr by simp
  have d: "MaxWorkers (config e) = 1 \<longrightarrow>
            emitted s = delivered s @ concat (map worker_hold (workers s)) @ batchChan s"
    using run_single_worker_inv[OF _ assms] by (auto simp: single_worker_inv_def)
  from a b c d show ?thesis by blast
qed

theorem envelope_accounting_witness:
  "run engine3 sched7_drained (init engine3) = Some final7_drained \<and>
   MaxWorkers (config engine3) = 1 \<and>
   map (map ID) (emitted final7_drained) =
     [[''sensor-0'', ''sensor-1'', ''sensor-2''], [''sensor-3'', ''sensor-4'', ''sensor-5''],
      [''sensor-6'']] \<and>
   emitted final7_drained = delivered final7_drained \<and>
   prefix (concat (delivered final7_drained)) (enqueued final7_drained) \<and>
   run engine3 sched_two_held (init engine3) = Some mid_two_held \<and>
   \<not> ctx_done mid_two_held \<and>
   enqueued mid_two_held = bat_hold (bat mid_two_held) @ dataChan mid_two_held"
proof -
  have m: "MaxWorkers (config engine3) = 1" by code_simp
  have d: "concat (map worker_hold (workers final7_drained)) = []" by code_simp
  have e: "batchChan final7_drained = []" by code_simp
  have i: "map (map ID) (emitted final7_drained) =
     [[''sensor-0'', ''sensor-1'', ''sensor-2''], [''sensor-3'', ''sensor-4'', ''sensor-5''],
      [''sensor-6'']]" by code_simp
  note t = envelope_accounting[OF sched7_drained_run]
  from t m d e have w1: "emitted final7_drained = delivered final7_drained" by simp
  from t w1 have w1': "prefix (concat (delivered final7_drained)) (enqueued final7_drained)"
    by simp
  have n: "\<not> ctx_done mid_two_held" by code_simp
  have em: "emitted mid_two_held = []" by code_simp
  from envelope_accounting[OF sched_two_held_run] n em
  have w2: "enqueued mid_two_held = bat_hold (bat mid_two_held) @ dataChan mid_two_held"
    by simp
  from w1 w1' w2 m i n sched7_drained_run sched_two_held_run show ?thesis by simp
qed

text \<open>
  The claim as the specification states it fails: here one envelope enters the data
  channel before the context is cancelled; the batch processor, its batch empty, takes
  the \<^verbatim>\<open>ctx.Done()\<close> branch and returns; \<^verbatim>\<open>Start\<close> returns without error, and the
  envelope is in no batch and was never handed to the publisher.
\<close>

theorem envelope_left_behind:
  "run engine3 sched1_fed (init engine3) = Some fed1 \<and>
   \<not> ctx_done fed1 \<and>
   map ID (enqueued fed1) = [''sensor-0''] \<and>
   run engine3 sched1_left (init engine3) = Some final1_left \<and>
   MaxWorkers (config engine3) = 1 \<and>
   orch final1_left = OReturned None \<and>
   map ID (enqueued final1_left) = [''sensor-0''] \<and>
   emitted final1_left = [] \<and>
   delivered final1_left = [] \<and>
   map ID (dataChan final1_left) = [''sensor-0'']"
proof -
  have a: "\<not> ctx_done fed1" by code_simp
  have b: "map ID (enqueued fed1) = [''sensor-0'']" by code_simp
  have c: "MaxWorkers (config engine3) = 1" by code_simp
  have d: "orch final1_left = OReturned None" by code_simp
  have e: "map ID (enqueued final1_left) = [''sensor-0'']" by code_simp
  have f: "emitted final1_left = []" by code_simp
  have g: "delivered final1_left = []" by code_simp
  have h: "map ID (dataChan final1_left) = [''sensor-0'']" by code_simp
  from a b c d e f g h sched1_fed_run sched1_left_run show ?thesis by simp
qed

subsection \<open>Order of delivery\<close>

text \<open>
  Claim C8, as the code has it. With one worker, the batches handed to the publisher are
  an initial segment of the batches that entered the batch channel, and their envelopes,
  one batch after the other, are an initial segment of the envelopes that entered the data
  channel: generation order is kept from end to end. In the scenario (batch size 3, no
  timer event, seven envelopes sent) the publisher, whenever it has received all seven
  envelopes, has received them as batches of sizes 3, 3, 1 in this order.
\<close>

theorem single_worker_order:
  assumes "MaxWorkers (config e) = 1" and "run e evs (init e) = Some s"
  shows "prefix (delivered s) (emitted s) \<and>
         prefix (concat (emitted s)) (enqueued s) \<and>
         prefix (concat (delivered s)) (enqueued s) \<and>
         (BatchSize (config e) = 3 \<and> BatTick \<notin> set evs \<and> length (enqueued s) = 7 \<and>
          length (concat (delivered s)) = 7
          \<longrightarrow> map length (delivered s) = [3, 3, 1])"
proof -
  from assms(1) have one: "MaxWorkers (config e) \<le> 1" by simp
  define rest where "rest = concat (map worker_hold (workers s)) @ batchChan s"
  have sw: "emitted s = delivered s @ rest"
    using run_single_worker_inv[OF one assms(2)] by (simp add: single_worker_inv_def rest_def)
  have fl: "enqueued s = concat (emitted s) @ bat_hold (bat s) @ dropped s @ dataChan s"
    using run_flow_inv[OF assms(2)] by (simp add: flow_inv_def)
  have p1: "prefix (delivered s) (emitted s)"
    by (subst sw) simp
  have p2: "prefix (concat (emitted s)) (enqueued s)"
    by (subst fl) simp
  have p3: "prefix (concat (delivered s)) (enqueued s)"
    by (subst fl, subst sw) simp
  have sc: "map length (delivered s) = [3, 3, 1]"
    if h: "BatchSize (config e) = 3" "BatTick \<notin> set evs" "length (enqueued s) = 7"
      "length (concat (delivered s)) = 7"
  proof -
    from h(1) have pos: "1 \<le> BatchSize (config e)" by simp
    from run_tickfree_inv[OF pos h(2) assms(2) size_inv_init tickfree_inv_init]
    have sz: "size_inv e s" and tf: "tickfree_inv e s" by blast+
    from sz h(1) have bound: "list_all (\<lambda>b. 1 \<le> length b \<and> length b \<le> 3) (emitted s)"
      by (auto simp: size_inv_def size_ok_def list_all_iff)
    from p2 have "length (concat (emitted s)) \<le> length (enqueued s)"
      by (rule prefix_length_le)
    with h(3,4) sw have "length (concat rest) = 0" and total: "length (concat (emitted s)) = 7"
      by simp_all
    then have cr: "concat rest = []" by simp
    from bound sw have "\<forall>b \<in> set rest. 1 \<le> length b"
      by (simp add: list_all_iff)
    then have "list_all (\<lambda>b. b \<noteq> []) rest"
      by (fastforce simp: list_all_iff)
    from concat_nonempty_Nil[OF this cr] sw have ed: "emitted s = delivered s" by simp
    from tf h(1) have full: "list_all (\<lambda>b. length b = 3) (butlast (emitted s))"
      by (auto simp: tickfree_inv_def full_batch_def list_all_iff)
    from sizes_3_3_1[OF full bound total] ed show ?thesis by simp
  qed
  from p1 p2 p3 sc show ?thesis by blast
qed

theorem single_worker_order_witness:
  "MaxWorkers (config engine3) = 1 \<and>
   run engine3 sched7_drained (init engine3) = Some final7_drained \<and>
   BatchSize (config engine3) = 3 \<and>
   BatTick \<notin> set sched7_drained \<and>
   length (enqueued final7_drained) = 7 \<and>
   length (concat (delivered final7_drained)) = 7 \<and>
   map length (delivered final7_drained) = [3, 3, 1] \<and>
   prefix (concat (delivered final7_drained)) (enqueued final7_drained)"
proof -
  have m: "MaxWorkers (config engine3) = 1" by code_simp
  have bs: "BatchSize (config engine3) = 3" by code_simp
  have nt: "BatTick \<notin> set sched7_drained" by code_simp
  have l: "length (enqueued final7_drained) = 7" by code_simp
  have c: "length (concat (delivered final7_drained)) = 7" by code_simp
  from single_worker_order[OF m sched7_drained_run] bs nt l c
  have "map length (delivered final7_drained) = [3, 3, 1] \<and>
        prefix (concat (delivered final7_drained)) (enqueued final7_drained)"
    by simp
  with m bs nt l c sched7_drained_run show ?thesis by simp
qed

text \<open>
  The publisher need not receive all seven. Here the seven envelopes have entered the
  data channel before the cancellation, the batch processor has sent two full batches and
  its batch is empty; it then takes the \<^verbatim>\<open>ctx.Done()\<close> branch of its outer select
  with the seventh envelope still in the data channel. When \<^verbatim>\<open>Start\<close> returns the
  publisher has received two batches, of sizes 3 and 3, and no batch was discarded.
\<close>

theorem seven_fed_two_delivered:
  "run engine3 sched7_six (init engine3) = Some six7 \<and>
   \<not> ctx_done six7 \<and>
   length (enqueued six7) = 7 \<and>
   MaxWorkers (config engine3) = 1 \<and>
   BatchSize (config engine3) = 3 \<and>
   BatTick \<notin> set sched7_undrained \<and>
   run engine3 sched7_undrained (init engine3) = Some final7_undrained \<and>
   orch final7_undrained = OReturned None \<and>
   length (enqueued final7_undrained) = 7 \<and>
   map length (delivered final7_undrained) = [3, 3] \<and>
   map ID (dataChan final7_undrained) = [''sensor-6''] \<and>
   dropped final7_undrained = []"
proof -
  have a: "\<not> ctx_done six7" by code_simp
  have b: "length (enqueued six7) = 7" by code_simp
  have c: "MaxWorkers (config engine3) = 1" by code_simp
  have d: "BatchSize (config engine3) = 3" by code_simp
  have e: "BatTick \<notin> set sched7_undrained" by code_simp
  have f: "orch final7_undrained = OReturned None" by code_simp
  have g: "length (enqueued final7_undrained) = 7" by code_simp
  have h: "map length (delivered final7_undrained) = [3, 3]" by code_simp
  have i: "map ID (dataChan final7_undrained) = [''sensor-6'']" by code_simp
  have j: "dropped final7_undrained = []" by code_simp
  from a b c d e f g h i j sched7_six_run sched7_undrained_run show ?thesis by simp
qed

subsection \<open>Identifiers\<close>

text \<open>
  The decimal rendering is injective, and so is the identifier as a function of the
  counter; a counter below \<open>2\<^sup>6\<^sup>3\<close> is printed as the natural number it is.
\<close>

declare show_nat.simps [simp del]

lemma sint_of_nat_small: "i < 2^63 \<Longrightarrow> sint (of_nat i :: 64 word) = int i"
  by (simp add: signed_of_nat signed_take_bit_int_eq_self)

lemma of_nat_word_inj:
  "(of_nat i :: 64 word) = of_nat j \<Longrightarrow> i < 2^64 \<Longrightarrow> j < 2^64 \<Longrightarrow> i = j"
  by (simp add: word_of_nat_eq_iff take_bit_nat_eq_self)

lemma digit_cases:
  "d < 10 \<Longrightarrow> d = 0 \<or> d = 1 \<or> d = 2 \<or> d = 3 \<or> d = 4 \<or> d = 5 \<or> d = 6 \<or> d = 7 \<or>
     d = 8 \<or> d = (9::nat)"
  by arith

lemma digit_char_code: "d < 10 \<Longrightarrow> (of_char (digit_char d) :: nat) = 48 + d"
  by (drule digit_cases) (elim disjE; simp add: digit_char_def)

lemma digit_char_inj:
  assumes "d < 10" and "d' < 10" and "digit_char d = digit_char d'"
  shows "d = d'"
proof -
  from assms(3) have "(of_char (digit_char d) :: nat) = of_char (digit_char d')"
    by (rule arg_cong)
  then have "48 + d = 48 + d'"
    by (simp only: digit_char_code[OF assms(1)] digit_char_code[OF assms(2)])
  then show ?thesis by simp
qed

lemma digit_char_not_minus: "d < 10 \<Longrightarrow> digit_char d \<noteq> CHR ''-''"
  by (drule digit_cases) (elim disjE; simp add: digit_char_def)

lemma show_nat_nonempty: "show_nat n \<noteq> []"
  by (subst show_nat.simps) simp

lemma show_nat_nonempty': "[] \<noteq> show_nat n"
  using show_nat_nonempty[of n] by simp

lemma show_nat_hd_not_minus: "hd (show_nat n) \<noteq> CHR ''-''"
proof (induction n rule: show_nat.induct)
  case (1 n)
  show ?case
  proof (cases "n < 10")
    case True
    then show ?thesis
      by (subst show_nat.simps) (simp add: digit_char_not_minus)
  next
    case False
    with 1 show ?thesis
      by (subst show_nat.simps) (simp add: show_nat_nonempty)
  qed
qed

lemma show_nat_inj: "show_nat n = show_nat m \<Longrightarrow> n = m"
proof (induction n arbitrary: m rule: show_nat.induct)
  case (1 n)
  show ?case
  proof (cases "n < 10")
    case True
    note n = True
    show ?thesis
    proof (cases "m < 10")
      case True
      with n 1(2) show ?thesis
        by (simp add: show_nat.simps[of n] show_nat.simps[of m] digit_char_inj)
    next
      case False
      with n 1(2) show ?thesis
        by (simp add: show_nat.simps[of n] show_nat.simps[of m] show_nat_nonempty show_nat_nonempty')
    qed
  next
    case False
    note n = False
    show ?thesis
    proof (cases "m < 10")
      case True
      with n 1(2) show ?thesis
        by (simp add: show_nat.simps[of n] show_nat.simps[of m] show_nat_nonempty show_nat_nonempty')
    next
      case False
      with n 1(2) have a: "show_nat (n div 10) = show_nat (m div 10)"
        and b: "digit_char (n mod 10) = digit_char (m mod 10)"
        by (simp_all add: show_nat.simps[of n] show_nat.simps[of m])
      from 1(1)[OF n a] have "n div 10 = m div 10" .
      moreover from b have "n mod 10 = m mod 10"
        by (simp add: digit_char_inj)
      ultimately show ?thesis
        by (metis div_mult_mod_eq)
    qed
  qed
qed

lemma show_int_inj: "show_int i = show_int j \<Longrightarrow> i = j"
proof -
  assume eq: "show_int i = show_int j"
  have hd_neg: "hd (show_int k) = CHR ''-''" if "k < 0" for k
    using that by (simp add: show_int_def)
  have hd_pos: "hd (show_int k) \<noteq> CHR ''-''" if "\<not> k < 0" for k
    using that by (simp add: show_int_def show_nat_hd_not_minus)
  show "i = j"
  proof (cases "i < 0")
    case True
    with eq hd_neg[OF True] hd_pos[of j] have j: "j < 0" by metis
    with True eq have "show_nat (nat (- i)) = show_nat (nat (- j))"
      by (simp add: show_int_def)
    from show_nat_inj[OF this] True j show ?thesis by simp
  next
    case False
    with eq hd_neg[of j] hd_pos[OF False] have j: "\<not> j < 0" by metis
    with False eq have "show_nat (nat i) = show_nat (nat j)"
      by (simp add: show_int_def)
    from show_nat_inj[OF this] False j show ?thesis by simp
  qed
qed

lemma sensor_id_inj: "sensor_id c = sensor_id c' \<Longrightarrow> c = c'"
  by (auto simp: sensor_id_def dest!: show_int_inj intro: signed_word_eqI)

lemma sensor_id_small: "i < 2^63 \<Longrightarrow> sensor_id (of_nat i) = ''sensor-'' @ show_nat i"
  by (simp add: sensor_id_def sint_of_nat_small show_int_def)

text \<open>
  Claim C9. In every run, the \<open>i\<close>-th envelope the generator builds carries the
  identifier \<^verbatim>\<open>sensor-\<close>\<open>i\<close> (\<open>i\<close> counted from 0, in decimal): identifiers are assigned
  in sequence and increase in generation order. No two envelopes share an identifier.
  The envelopes that entered the data channel are the envelopes built, in the same order,
  but possibly for the last one built. (The counter is a 64-bit \<^verbatim>\<open>int\<close>: the decimal form
  is stated for the first \<open>2\<^sup>6\<^sup>3\<close> envelopes of a run and the uniqueness for the first
  \<open>2\<^sup>6\<^sup>4\<close>; at one envelope per nanosecond, the fastest ticker there is, \<open>2\<^sup>6\<^sup>3\<close>
  envelopes take 292 years.)
\<close>

theorem identifiers_sequential:
  assumes "run e evs (init e) = Some s"
  shows "(\<forall>i < length (generated s). i < 2^63 \<longrightarrow>
            ID (generated s ! i) = ''sensor-'' @ show_nat i) \<and>
         (length (generated s) \<le> 2^64 \<longrightarrow> distinct (map ID (generated s))) \<and>
         prefix (enqueued s) (generated s)"
proof -
  define n where "n = length (generated s)"
  from run_gen_inv[OF assms]
  have m: "map ID (generated s) = map (\<lambda>i. sensor_id (of_nat i)) [0..<n]"
    and p: "prefix (enqueued s) (generated s)"
    by (simp_all add: gen_inv_def n_def)
  have nth: "ID (generated s ! i) = sensor_id (of_nat i)" if "i < n" for i
  proof -
    from that have "ID (generated s ! i) = map ID (generated s) ! i"
      by (simp add: n_def)
    also from that have "\<dots> = sensor_id (of_nat i)"
      by (simp add: m)
    finally show ?thesis .
  qed
  have a: "\<forall>i < length (generated s). i < 2^63 \<longrightarrow>
            ID (generated s ! i) = ''sensor-'' @ show_nat i"
    using nth by (simp add: n_def sensor_id_small)
  have b: "distinct (map ID (generated s))" if le: "length (generated s) \<le> 2^64"
  proof -
    have "inj_on (\<lambda>i. sensor_id (of_nat i)) (set [0..<n])"
    proof (rule inj_onI)
      fix i j
      assume i: "i \<in> set [0..<n]" and j: "j \<in> set [0..<n]"
        and eq: "sensor_id (of_nat i) = sensor_id (of_nat j)"
      from i j le have "i < 2^64" and "j < 2^64"
        by (simp_all add: n_def)
      with sensor_id_inj[OF eq] show "i = j"
        by (rule of_nat_word_inj)
    qed
    then have "distinct (map (\<lambda>i. sensor_id (of_nat i)) [0..<n])"
      by (simp add: distinct_map)
    with m show ?thesis by simp
  qed
  from a b p show ?thesis by blast
qed

theorem identifiers_sequential_witness:
  "run engine3 sched7_drained (init engine3) = Some final7_drained \<and>
   length (generated final7_drained) = 7 \<and>
   ID (generated final7_drained ! 0) = ''sensor-0'' \<and>
   ID (generated final7_drained ! 6) = ''sensor-6'' \<and>
   distinct (map ID (generated final7_drained)) \<and>
   prefix (enqueued final7_drained) (generated final7_drained)"
proof -
  have l: "length (generated final7_drained) = 7" by code_simp
  have s0: "show_nat 0 = ''0''" by code_simp
  have s6: "show_nat 6 = ''6''" by code_simp
  note t = identifiers_sequential[OF sched7_drained_run]
  from t l have "ID (generated final7_drained ! 0) = ''sensor-'' @ show_nat 0"
    by simp
  with s0 have a: "ID (generated final7_drained ! 0) = ''sensor-0''" by simp
  from t l have "ID (generated final7_drained ! 6) = ''sensor-'' @ show_nat 6"
    by simp
  with s6 have b: "ID (generated final7_drained ! 6) = ''sensor-6''" by simp
  from t l have c: "distinct (map ID (generated final7_drained))" by simp
  from t have d: "prefix (enqueued final7_drained) (generated final7_drained)" by simp
  from a b c d l sched7_drained_run show ?thesis by simp
qed

subsection \<open>Validation of the configuration\<close>

text \<open>
  Claim C3, as the code has it. The four configuration values are not validated before
  \<^verbatim>\<open>Start\<close>. \<^verbatim>\<open>NewEngine\<close> has no error result and keeps whatever configuration it is
  given. \<^verbatim>\<open>ToEngineConfig\<close> fails exactly when one of the two duration strings does not
  parse, and otherwise copies the batch size and the worker count as they are, next to
  the two parsed durations. A non-positive production interval then stops the program
  when the generator starts, and a negative batch size or a non-positive batch timeout
  when the batch processor starts.
\<close>

theorem construction_unvalidated:
  "config (NewEngine cfg sd fn pb) = cfg \<and>
   (ToEngineConfig parseDuration c = Inr cfg' \<longleftrightarrow>
      (\<exists>productionRate batchTimeout.
         parseDuration (ProductionRateS c) = Inr productionRate \<and>
         parseDuration (BatchTimeoutS c) = Inr batchTimeout \<and>
         cfg' = \<lparr>ProductionRate = productionRate, BatchSize = BatchSizeF c,
                 BatchTimeout = batchTimeout, MaxWorkers = MaxWorkersF c\<rparr>)) \<and>
   ((\<exists>err. ToEngineConfig parseDuration c = Inl err) \<longleftrightarrow>
      (\<exists>err. parseDuration (ProductionRateS c) = Inl err) \<or>
      (\<exists>err. parseDuration (BatchTimeoutS c) = Inl err)) \<and>
   (ProductionRate cfg \<le> 0 \<longrightarrow>
      run (NewEngine cfg sd fn pb) [GenStart] (init (NewEngine cfg sd fn pb)) =
        Some ((init (NewEngine cfg sd fn pb))\<lparr>panicked := True\<rparr>)) \<and>
   (BatchSize cfg < 0 \<or> BatchTimeout cfg \<le> 0 \<longrightarrow>
      run (NewEngine cfg sd fn pb) [BatStart] (init (NewEngine cfg sd fn pb)) =
        Some ((init (NewEngine cfg sd fn pb))\<lparr>panicked := True\<rparr>))"
proof -
  have a: "config (NewEngine cfg sd fn pb) = cfg"
    by (simp add: NewEngine_def)
  have b: "ToEngineConfig parseDuration c = Inr cfg' \<longleftrightarrow>
      (\<exists>productionRate batchTimeout.
         parseDuration (ProductionRateS c) = Inr productionRate \<and>
         parseDuration (BatchTimeoutS c) = Inr batchTimeout \<and>
         cfg' = \<lparr>ProductionRate = productionRate, BatchSize = BatchSizeF c,
                 BatchTimeout = batchTimeout, MaxWorkers = MaxWorkersF c\<rparr>)"
    by (auto simp: ToEngineConfig_def split: sum.splits)
  have c: "(\<exists>err. ToEngineConfig parseDuration c = Inl err) \<longleftrightarrow>
      (\<exists>err. parseDuration (ProductionRateS c) = Inl err) \<or>
      (\<exists>err. parseDuration (BatchTimeoutS c) = Inl err)"
    by (auto simp: ToEngineConfig_def split: sum.splits)
  have d: "ProductionRate cfg \<le> 0 \<longrightarrow>
      run (NewEngine cfg sd fn pb) [GenStart] (init (NewEngine cfg sd fn pb)) =
        Some ((init (NewEngine cfg sd fn pb))\<lparr>panicked := True\<rparr>)"
    by (simp add: step_def gen_start_def init_def NewEngine_def)
  have e: "BatchSize cfg < 0 \<or> BatchTimeout cfg \<le> 0 \<longrightarrow>
      run (NewEngine cfg sd fn pb) [BatStart] (init (NewEngine cfg sd fn pb)) =
        Some ((init (NewEngine cfg sd fn pb))\<lparr>panicked := True\<rparr>)"
    by (simp add: step_def bat_start_def init_def NewEngine_def)
  from a b c d e show ?thesis by blast
qed

theorem construction_unvalidated_witness:
  "config engine0 = cfg0 \<and>
   ToEngineConfig parse_0s file0 = Inr cfg0 \<and>
   ToEngineConfig parse_0s file_bad = Inl ''invalid batch_timeout: time: invalid duration soon'' \<and>
   ProductionRate cfg0 \<le> 0 \<and>
   run engine0 [GenStart] (init engine0) = Some ((init engine0)\<lparr>panicked := True\<rparr>) \<and>
   BatchTimeout cfg0 \<le> 0 \<and>
   run engine0 [BatStart] (init engine0) = Some ((init engine0)\<lparr>panicked := True\<rparr>)"
proof -
  note t = construction_unvalidated[of cfg0 "()" "\<lambda>input timestamp. timestamp" "()"
      parse_0s file0 cfg0]
  have p: "ProductionRate cfg0 \<le> 0" and q: "BatchTimeout cfg0 \<le> 0"
    by (simp_all add: cfg0_def)
  have f1: "parse_0s (ProductionRateS file0) = Inr 0" and f2: "parse_0s (BatchTimeoutS file0) = Inr 0"
    by (simp_all add: parse_0s_def file0_def)
  have f3: "cfg0 = \<lparr>ProductionRate = 0, BatchSize = BatchSizeF file0, BatchTimeout = 0,
                    MaxWorkers = MaxWorkersF file0\<rparr>"
    by (simp add: cfg0_def file0_def)
  from t f1 f2 f3 have a: "ToEngineConfig parse_0s file0 = Inr cfg0"
    by blast
  from t have b: "config engine0 = cfg0"
    by (simp add: engine0_def)
  from t p have c: "run engine0 [GenStart] (init engine0) = Some ((init engine0)\<lparr>panicked := True\<rparr>)"
    unfolding engine0_def by blast
  from t q have d: "run engine0 [BatStart] (init engine0) = Some ((init engine0)\<lparr>panicked := True\<rparr>)"
    unfolding engine0_def by blast
  have e: "ToEngineConfig parse_0s file_bad = Inl ''invalid batch_timeout: time: invalid duration soon''"
    by (simp add: ToEngineConfig_def parse_0s_def file_bad_def)
  from a b c d e p q show ?thesis by simp
qed

text \<open>
  The claim as the specification states it fails: the configuration with all four values
  zero is not one the specification allows, \<^verbatim>\<open>NewEngine\<close> and \<^verbatim>\<open>ToEngineConfig\<close> both
  accept it without an error, and the run dies at the generator's first step.
\<close>

theorem invalid_config_accepted:
  "\<not> config_positive cfg0 \<and>
   config (NewEngine cfg0 () (\<lambda>input timestamp. timestamp) ()) = cfg0 \<and>
   ToEngineConfig parse_0s file0 = Inr cfg0 \<and>
   map_option panicked (run engine0 [GenStart] (init engine0)) = Some True"
proof -
  have a: "\<not> config_positive cfg0"
    by (simp add: config_positive_def cfg0_def)
  have b: "config (NewEngine cfg0 () (\<lambda>input timestamp. timestamp) ()) = cfg0"
    by (simp add: NewEngine_def)
  have c: "ToEngineConfig parse_0s file0 = Inr cfg0"
    by (simp add: ToEngineConfig_def parse_0s_def file0_def cfg0_def)
  have d: "map_option panicked (run engine0 [GenStart] (init engine0)) = Some True"
    by (simp add: step_def gen_start_def init_def engine0_def NewEngine_def cfg0_def)
  from a b c d show ?thesis by simp
qed

end
